theory Spec2Isabelle
  imports Main "HOL-Library.AList"
begin

section \<open>Grid model (src/src/App.tsx)\<close>

text \<open>
  A position is the pair \<open>[row, column]\<close>. The source keys its maps by the string
  \<open>generateKey(row, column)\<close>. That string determines the pair and is never empty
  (\<open>keyString_inj\<close> and \<open>keyString_not_empty\<close> below), so a key is modelled by the pair
  itself.
\<close>

type_synonym TPosition = "int \<times> int"

definition generateKey :: "int \<Rightarrow> int \<Rightarrow> TPosition" where
  "generateKey row column = (row, column)"

subsection \<open>The key string\<close>

text \<open>
  The source's \<open>generateKey\<close> returns the string \<open>`${row}-${column}`\<close>: the decimal
  digits of each number, after a minus sign when it is negative, with a hyphen between
  them. \<open>keyString\<close> is that string for integers.
\<close>

definition digitChar :: "nat \<Rightarrow> char" where
  "digitChar d = ''0123456789'' ! d"

function digits :: "nat \<Rightarrow> string" where
  "digits n = (if n < 10 then [digitChar n] else digits (n div 10) @ [digitChar (n mod 10)])"
  by pat_completeness auto
termination
  by (relation "measure id") auto

declare digits.simps [simp del]

definition numberString :: "int \<Rightarrow> string" where
  "numberString i = (if i < 0 then CHR ''-'' # digits (nat (- i)) else digits (nat i))"

definition keyString :: "int \<Rightarrow> int \<Rightarrow> string" where
  "keyString row column = numberString row @ ''-'' @ numberString column"

lemma keyString_example: "keyString 12 (- 3) = ''12--3'' \<and> keyString 0 7 = ''0-7''"
  by (simp add: keyString_def numberString_def digits.simps digitChar_def)

lemma digitChar_not_minus:
  assumes "d < 10"
  shows "digitChar d \<noteq> CHR ''-''"
proof -
  from assms have "d \<in> {0, 1, 2, 3, 4, 5, 6, 7, 8, 9}" by auto
  then show ?thesis by (auto simp: digitChar_def)
qed

lemma digitChar_inj: "d < 10 \<Longrightarrow> e < 10 \<Longrightarrow> digitChar d = digitChar e \<Longrightarrow> d = e"
proof -
  assume "d < 10" "e < 10" "digitChar d = digitChar e"
  moreover have "distinct ''0123456789''" by simp
  ultimately show "d = e"
    by (simp add: digitChar_def nth_eq_iff_index_eq)
qed

lemma digits_no_minus: "CHR ''-'' \<notin> set (digits n)"
proof (induction n rule: digits.induct)
  case (1 n)
  show ?case
  proof (cases "n < 10")
    case True
    with digitChar_not_minus [of n] show ?thesis by (subst digits.simps) auto
  next
    case False
    with 1 digitChar_not_minus [of "n mod 10"] show ?thesis by (subst digits.simps) auto
  qed
qed

lemma digits_nonempty: "digits n \<noteq> []"
  by (subst digits.simps) simp

lemma digits_inj: "digits n = digits m \<Longrightarrow> n = m"
proof (induction n arbitrary: m rule: digits.induct)
  case (1 n)
  show ?case
  proof (cases "n < 10")
    case n: True
    show ?thesis
    proof (cases "m < 10")
      case True
      with n "1.prems" show ?thesis
        by (simp add: digits.simps [of n] digits.simps [of m] digitChar_inj)
    next
      case False
      with n "1.prems" digits_nonempty [of "m div 10"] show ?thesis
        by (simp add: digits.simps [of n] digits.simps [of m])
    qed
  next
    case n: False
    show ?thesis
    proof (cases "m < 10")
      case True
      with n "1.prems" digits_nonempty [of "n div 10"] show ?thesis
        by (simp add: digits.simps [of n] digits.simps [of m])
    next
      case False
      with n "1.prems" have "digits (n div 10) = digits (m div 10)"
        "digitChar (n mod 10) = digitChar (m mod 10)"
        by (simp_all add: digits.simps [of n] digits.simps [of m])
      with "1.IH" [OF n, of "m div 10"] have "n div 10 = m div 10" "n mod 10 = m mod 10"
        by (simp_all add: digitChar_inj)
      then show ?thesis by (metis div_mult_mod_eq)
    qed
  qed
qed

lemma numberString_inj: "numberString i = numberString j \<Longrightarrow> i = j"
proof -
  assume eq: "numberString i = numberString j"
  have hd: "hd (digits n) \<noteq> CHR ''-''" for n
    using digits_no_minus [of n] digits_nonempty [of n] by (cases "digits n") auto
  show "i = j"
  proof (cases "i < 0")
    case True
    show ?thesis
    proof (cases "j < 0")
      case True
      with \<open>i < 0\<close> eq have "digits (nat (- i)) = digits (nat (- j))"
        by (simp add: numberString_def)
      from digits_inj [OF this] True \<open>i < 0\<close> show ?thesis by simp
    next
      case False
      with True eq have "CHR ''-'' # digits (nat (- i)) = digits (nat j)"
        by (simp add: numberString_def)
      then have "hd (digits (nat j)) = CHR ''-''" by (metis list.sel(1))
      with hd show ?thesis by simp
    qed
  next
    case False
    show ?thesis
    proof (cases "j < 0")
      case True
      with False eq have "digits (nat i) = CHR ''-'' # digits (nat (- j))"
        by (simp add: numberString_def)
      then have "hd (digits (nat i)) = CHR ''-''" by (metis list.sel(1))
      with hd show ?thesis by simp
    next
      case nj: False
      with False eq have "digits (nat i) = digits (nat j)"
        by (simp add: numberString_def)
      from digits_inj [OF this] False nj show ?thesis by simp
    qed
  qed
qed

text \<open>The first number of a key, read back up to the separating hyphen.\<close>

definition firstNumber :: "string \<Rightarrow> string" where
  "firstNumber s = (case s of
       [] \<Rightarrow> []
     | ch # t \<Rightarrow> if ch = CHR ''-'' then ch # takeWhile (\<lambda>x. x \<noteq> CHR ''-'') t
                else takeWhile (\<lambda>x. x \<noteq> CHR ''-'') s)"

lemma takeWhile_digits: "takeWhile (\<lambda>x. x \<noteq> CHR ''-'') (digits n @ CHR ''-'' # rest) = digits n"
proof -
  have "\<forall>x \<in> set (digits n). x \<noteq> CHR ''-''"
    using digits_no_minus [of n] by blast
  then show ?thesis by (simp add: takeWhile_append2)
qed

lemma firstNumber_key: "firstNumber (numberString i @ CHR ''-'' # rest) = numberString i"
proof (cases "i < 0")
  case True
  then show ?thesis
    by (simp add: firstNumber_def numberString_def takeWhile_digits)
next
  case False
  obtain ch t where d: "digits (nat i) = ch # t"
    using digits_nonempty [of "nat i"] by (cases "digits (nat i)") auto
  with digits_no_minus [of "nat i"] have "ch \<noteq> CHR ''-''" by auto
  with False d takeWhile_digits [of "nat i" rest] show ?thesis
    by (simp add: firstNumber_def numberString_def)
qed

text \<open>
  Two keys are equal only for the same row and column, and no key is the empty string
  (the only falsy string): a map keyed by \<open>keyString row column\<close> is a map keyed by the
  pair, and \<open>while (currentKey)\<close> tests for \<open>undefined\<close> only.
\<close>

lemma keyString_inj:
  "keyString r c = keyString r' c' \<longleftrightarrow> r = r' \<and> c = c'"
proof
  assume eq: "keyString r c = keyString r' c'"
  then have "firstNumber (numberString r @ CHR ''-'' # numberString c)
      = firstNumber (numberString r' @ CHR ''-'' # numberString c')"
    by (simp add: keyString_def)
  then have "numberString r = numberString r'" by (simp only: firstNumber_key)
  with eq have "numberString c = numberString c'" by (simp add: keyString_def)
  with \<open>numberString r = numberString r'\<close> show "r = r' \<and> c = c'"
    by (simp add: numberString_inj)
qed simp

lemma keyString_not_empty: "keyString r c \<noteq> []"
  by (simp add: keyString_def)

subsection \<open>Cells and grids\<close>

text \<open>\<open>ICell.state\<close>: the seven boolean flags, in the order of the interface.\<close>

record cellState =
  isStart :: bool
  isActive :: bool
  isWall :: bool
  isVisited :: bool
  isQueued :: bool
  isGoal :: bool
  isPath :: bool

text \<open>
  \<open>ICell\<close>: the numeric \<open>id\<close> (a random natural number drawn by
  \<open>CellFactory._generateId\<close>) and the state. The optional \<open>content\<close> string is
  only rendered and is left out.
\<close>

record ICell =
  cellId :: nat
  state :: cellState

type_synonym TGrid = "TPosition \<rightharpoonup> ICell"

definition defaultState :: cellState where
  "defaultState = \<lparr>isStart = False, isActive = False, isWall = False, isVisited = False,
     isQueued = False, isGoal = False, isPath = False\<rparr>"

text \<open>
  The factory methods draw a fresh id; every use in the search replaces it at once by the
  id of the cell being overwritten (\<open>{...CellFactory.path(), id: old.id}\<close>), so the
  id is a parameter here.
\<close>

definition defaultCell :: "nat \<Rightarrow> ICell" where
  "defaultCell i = \<lparr>cellId = i, state = defaultState\<rparr>"

definition startCell :: "nat \<Rightarrow> ICell" where
  "startCell i = \<lparr>cellId = i, state = defaultState\<lparr>isStart := True\<rparr>\<rparr>"

definition goalCell :: "nat \<Rightarrow> ICell" where
  "goalCell i = \<lparr>cellId = i, state = defaultState\<lparr>isGoal := True\<rparr>\<rparr>"

definition wallCell :: "nat \<Rightarrow> ICell" where
  "wallCell i = \<lparr>cellId = i, state = defaultState\<lparr>isWall := True\<rparr>\<rparr>"

definition visitedCell :: "nat \<Rightarrow> ICell" where
  "visitedCell i = \<lparr>cellId = i, state = defaultState\<lparr>isVisited := True\<rparr>\<rparr>"

definition queuedCell :: "nat \<Rightarrow> ICell" where
  "queuedCell i = \<lparr>cellId = i, state = defaultState\<lparr>isQueued := True\<rparr>\<rparr>"

definition pathCell :: "nat \<Rightarrow> ICell" where
  "pathCell i = \<lparr>cellId = i, state = defaultState\<lparr>isPath := True\<rparr>\<rparr>"

text \<open>
  \<open>initialGrid rows columns\<close>: a default cell at every \<open>(r, c)\<close> with
  \<open>0 \<le> r < rows\<close> and \<open>0 \<le> c < columns\<close>. The random ids are given by \<open>ids\<close>.
\<close>

definition initialGrid :: "(TPosition \<Rightarrow> nat) \<Rightarrow> int \<Rightarrow> int \<Rightarrow> TGrid" where
  "initialGrid ids rows columns =
     (\<lambda>(r, c). if 0 \<le> r \<and> r < rows \<and> 0 \<le> c \<and> c < columns
        then Some (defaultCell (ids (r, c))) else None)"

text \<open>\<open>getNeighbours\<close>: up, down, left, right, keeping those whose key the grid has.\<close>

definition getNeighbours :: "TPosition \<Rightarrow> TGrid \<Rightarrow> TPosition list" where
  "getNeighbours p grid =
     (case p of (row, column) \<Rightarrow>
        filter (\<lambda>(r, c). grid (generateKey r c) \<noteq> None)
          [(row - 1, column), (row + 1, column), (row, column - 1), (row, column + 1)])"

definition manhattanDistance :: "TPosition \<Rightarrow> TPosition \<Rightarrow> int" where
  "manhattanDistance a b = (case a of (x1, y1) \<Rightarrow> case b of (x2, y2) \<Rightarrow>
     \<bar>x1 - x2\<bar> + \<bar>y1 - y2\<bar>)"

section \<open>Strategies\<close>

datatype STRATEGIES = BFS | DFS | AStar

text \<open>
  The fields of the \<open>aStarStrategy\<close> object. \<open>gScore\<close> is only read by key.
  \<open>parentMap\<close> is also read in insertion order (\<open>Array.from(keys()).pop()\<close>), so it
  is an association list in insertion order; \<open>Map.set\<close> on a key already present
  keeps the key's place, as \<open>AList.update\<close> does.
\<close>

record aStarState =
  gScore :: "TPosition \<rightharpoonup> int"
  aParentMap :: "(TPosition \<times> TPosition) list"

text \<open>\<open>this.gScore.get(key) || 0\<close>\<close>

definition gOr0 :: "aStarState \<Rightarrow> TPosition \<Rightarrow> int" where
  "gOr0 a p = (case gScore a (generateKey (fst p) (snd p)) of None \<Rightarrow> 0 | Some v \<Rightarrow> v)"

definition aStarInitialize :: "TPosition \<Rightarrow> aStarState" where
  "aStarInitialize start =
     \<lparr>gScore = [generateKey (fst start) (snd start) \<mapsto> 0], aParentMap = []\<rparr>"

text \<open>\<open>f = g + h\<close> of the scan in \<open>aStarStrategy.getNextNode\<close>.\<close>

definition fScore :: "aStarState \<Rightarrow> TPosition \<Rightarrow> TPosition \<Rightarrow> int" where
  "fScore a goal p = gOr0 a p + manhattanDistance p goal"

text \<open>
  The scan loop of \<open>aStarStrategy.getNextNode\<close> from index \<open>i\<close> on. \<open>minF\<close> is
  \<open>None\<close> for \<open>Infinity\<close>, \<open>minIndex\<close> is \<open>None\<close> for \<open>-1\<close>.
\<close>

fun scanMin :: "aStarState \<Rightarrow> TPosition \<Rightarrow> TPosition list \<Rightarrow> nat \<Rightarrow> int option \<Rightarrow> nat option
    \<Rightarrow> nat option" where
  "scanMin a goal [] i minF minIndex = minIndex"
| "scanMin a goal (p # ps) i minF minIndex =
     (let f = fScore a goal p in
      if (case minF of None \<Rightarrow> True | Some m \<Rightarrow> f < m)
      then scanMin a goal ps (Suc i) (Some f) (Some i)
      else scanMin a goal ps (Suc i) minF minIndex)"

text \<open>
  \<open>getNextNode\<close> returns the node (or \<open>null\<close>) and the queue it leaves behind:
  \<open>shift\<close> for BFS, \<open>pop\<close> for DFS, \<open>splice(minIndex, 1)[0]\<close> for A*.
\<close>

definition getNextNode :: "STRATEGIES \<Rightarrow> aStarState \<Rightarrow> TPosition list \<Rightarrow> TPosition
    \<Rightarrow> TPosition option \<times> TPosition list" where
  "getNextNode strategy a queue goal =
     (case strategy of
        BFS \<Rightarrow> (case queue of [] \<Rightarrow> (None, []) | x # xs \<Rightarrow> (Some x, xs))
      | DFS \<Rightarrow> (if queue = [] then (None, []) else (Some (last queue), butlast queue))
      | AStar \<Rightarrow>
          (case scanMin a goal queue 0 None None of
             None \<Rightarrow> (None, queue)
           | Some i \<Rightarrow> (Some (queue ! i), take i queue @ drop (Suc i) queue)))"

text \<open>
  \<open>processNeighbour\<close> returns its boolean and the strategy object's new fields. BFS and
  DFS return \<open>true\<close> and have no fields.
\<close>

definition processNeighbour :: "STRATEGIES \<Rightarrow> aStarState \<Rightarrow> TPosition \<Rightarrow> TPosition
    \<Rightarrow> bool \<times> aStarState" where
  "processNeighbour strategy a currentPos neighbour =
     (case strategy of
        AStar \<Rightarrow>
          (let neighbourKey = generateKey (fst neighbour) (snd neighbour);
               tentativeGScore = gOr0 a currentPos + 1
           in if (case gScore a neighbourKey of None \<Rightarrow> True | Some g \<Rightarrow> tentativeGScore < g)
              then (True, a\<lparr>gScore := (gScore a)(neighbourKey \<mapsto> tentativeGScore),
                            aParentMap := AList.update neighbourKey currentPos (aParentMap a)\<rparr>)
              else (False, a))
      | _ \<Rightarrow> (True, a))"

definition initialize :: "STRATEGIES \<Rightarrow> aStarState \<Rightarrow> TPosition \<Rightarrow> aStarState" where
  "initialize strategy a start = (case strategy of AStar \<Rightarrow> aStarInitialize start | _ \<Rightarrow> a)"

section \<open>The scan of A* ends on the first minimum\<close>

text \<open>What the scan has established after reading the prefix \<open>pre\<close> of the queue.\<close>

definition scanned :: "aStarState \<Rightarrow> TPosition \<Rightarrow> TPosition list \<Rightarrow> int option \<Rightarrow> nat option
    \<Rightarrow> bool" where
  "scanned a goal pre minF minIndex =
     (case minIndex of
        None \<Rightarrow> pre = [] \<and> minF = None
      | Some k \<Rightarrow> k < length pre \<and> minF = Some (fScore a goal (pre ! k))
          \<and> (\<forall>j < length pre. fScore a goal (pre ! k) \<le> fScore a goal (pre ! j))
          \<and> (\<forall>j < k. fScore a goal (pre ! k) < fScore a goal (pre ! j)))"

lemma scanned_step_new:
  assumes "scanned a goal pre minF minIndex"
    and "case minF of None \<Rightarrow> True | Some m \<Rightarrow> fScore a goal p < m"
  shows "scanned a goal (pre @ [p]) (Some (fScore a goal p)) (Some (length pre))"
proof (cases minIndex)
  case None
  with assms show ?thesis by (simp add: scanned_def)
next
  case (Some k)
  with assms have k: "k < length pre" and m: "minF = Some (fScore a goal (pre ! k))"
    and le: "\<forall>j < length pre. fScore a goal (pre ! k) \<le> fScore a goal (pre ! j)"
    by (simp_all add: scanned_def)
  from assms(2) m have lt: "fScore a goal p < fScore a goal (pre ! k)" by simp
  have "\<forall>j < length pre. fScore a goal p < fScore a goal (pre ! j)"
    using le lt by fastforce
  then show ?thesis
    by (auto simp: scanned_def nth_append less_Suc_eq)
qed

lemma scanned_step_keep:
  assumes "scanned a goal pre minF minIndex"
    and "\<not> (case minF of None \<Rightarrow> True | Some m \<Rightarrow> fScore a goal p < m)"
  shows "scanned a goal (pre @ [p]) minF minIndex"
proof (cases minIndex)
  case None
  with assms show ?thesis by (simp add: scanned_def)
next
  case (Some k)
  with assms have k: "k < length pre" and m: "minF = Some (fScore a goal (pre ! k))"
    and le: "\<forall>j < length pre. fScore a goal (pre ! k) \<le> fScore a goal (pre ! j)"
    and lt: "\<forall>j < k. fScore a goal (pre ! k) < fScore a goal (pre ! j)"
    by (simp_all add: scanned_def)
  from assms(2) m have ge: "fScore a goal (pre ! k) \<le> fScore a goal p" by simp
  show ?thesis
    using Some k m le lt ge by (auto simp: scanned_def nth_append less_Suc_eq)
qed

lemma scanMin_scanned:
  "scanned a goal pre minF minIndex \<Longrightarrow> i = length pre \<Longrightarrow>
   scanned a goal (pre @ ps) (map_option (\<lambda>k. fScore a goal ((pre @ ps) ! k))
       (scanMin a goal ps i minF minIndex))
     (scanMin a goal ps i minF minIndex)"
proof (induction ps arbitrary: pre minF minIndex i)
  case Nil
  then show ?case by (cases minIndex) (auto simp: scanned_def)
next
  case (Cons p ps)
  show ?case
  proof (cases "case minF of None \<Rightarrow> True | Some m \<Rightarrow> fScore a goal p < m")
    case True
    from scanned_step_new [OF Cons.prems(1) True] Cons.prems(2)
    have "scanned a goal ((pre @ [p]) @ ps)
        (map_option (\<lambda>k. fScore a goal (((pre @ [p]) @ ps) ! k))
           (scanMin a goal ps (Suc i) (Some (fScore a goal p)) (Some (length pre))))
        (scanMin a goal ps (Suc i) (Some (fScore a goal p)) (Some (length pre)))"
      by (intro Cons.IH) simp_all
    with True Cons.prems(2) show ?thesis by (simp add: Let_def)
  next
    case False
    from scanned_step_keep [OF Cons.prems(1) False] Cons.prems(2)
    have "scanned a goal ((pre @ [p]) @ ps)
        (map_option (\<lambda>k. fScore a goal (((pre @ [p]) @ ps) ! k))
           (scanMin a goal ps (Suc i) minF minIndex))
        (scanMin a goal ps (Suc i) minF minIndex)"
      by (intro Cons.IH) simp_all
    with False Cons.prems(2) show ?thesis by (simp add: Let_def)
  qed
qed

lemma scanMin_queue:
  "scanned a goal [] None None"
  by (simp add: scanned_def)

lemma scanMin_Some:
  assumes "queue \<noteq> []"
  shows "\<exists>i < length queue. scanMin a goal queue 0 None None = Some i
     \<and> (\<forall>j < length queue. fScore a goal (queue ! i) \<le> fScore a goal (queue ! j))
     \<and> (\<forall>j < i. fScore a goal (queue ! i) < fScore a goal (queue ! j))"
proof -
  have s: "scanned a goal queue
      (map_option (\<lambda>k. fScore a goal (queue ! k)) (scanMin a goal queue 0 None None))
      (scanMin a goal queue 0 None None)"
    using scanMin_scanned [OF scanMin_queue, of 0 a goal queue] by simp
  show ?thesis
  proof (cases "scanMin a goal queue 0 None None")
    case None
    with s assms show ?thesis by (simp add: scanned_def)
  next
    case (Some k)
    with s show ?thesis by (simp add: scanned_def)
  qed
qed

section \<open>A*: the live path\<close>

lemma generateKey_fst_snd [simp]: "generateKey (fst p) (snd p) = p"
  by (simp add: generateKey_def)

text \<open>
  The \<open>while (currentKey)\<close> loop of \<open>getOptimalPath\<close>. Nothing in the loop bounds it, so
  it is a partial function: \<open>None\<close> is the loop that never ends.
\<close>

partial_function (option) optimalWalk :: "(TPosition \<times> TPosition) list \<Rightarrow> TPosition
    \<Rightarrow> TPosition list \<Rightarrow> TPosition list option" where
  "optimalWalk pm currentKey path =
     (case map_of pm currentKey of
        None \<Rightarrow> Some path
      | Some currentPos \<Rightarrow>
          optimalWalk pm (generateKey (fst currentPos) (snd currentPos)) (path @ [currentPos]))"

text \<open>
  \<open>getOptimalPath\<close>: the walk starts at \<open>Array.from(this.parentMap.keys()).pop()\<close>, the
  last key in insertion order, or does not start when the map is empty.
\<close>

definition getOptimalPath :: "aStarState \<Rightarrow> TPosition list option" where
  "getOptimalPath a =
     (if aParentMap a = [] then Some []
      else optimalWalk (aParentMap a) (fst (last (aParentMap a))) [])"

section \<open>The search generator\<close>

text \<open>
  What one run of \<open>search\<close> reads and writes: the \<open>grid\<close> signal, the fields of the
  \<open>aStarStrategy\<close> object, and the locals \<open>visited\<close>, \<open>parentMap\<close> and \<open>queue\<close>.
\<close>

record searchState =
  grid :: TGrid
  aStar :: aStarState
  visited :: "nat set"
  parentMap :: "nat \<rightharpoonup> TPosition"
  queue :: "TPosition list"

text \<open>Reading a property of \<open>undefined\<close> (\<open>grid.get(key)!.id\<close> on a missing key).\<close>

datatype jsError = TypeError

text \<open>
  How a call of \<open>next()\<close> leaves the generator body: an exception, a \<open>yield\<close> of a
  boolean, or the \<open>return\<close> of the goal branch. \<open>Returned\<close> also carries the local
  \<open>path\<close> of that branch, which the source does not return.
\<close>

datatype outcome = Threw jsError | Yielded bool searchState | Returned "TPosition list" searchState

text \<open>\<open>parentMap.set(neighbourCell.id, start)\<close> for every neighbour of the start.\<close>

fun seedParents :: "TGrid \<Rightarrow> TPosition \<Rightarrow> TPosition list \<Rightarrow> (nat \<rightharpoonup> TPosition)
    \<Rightarrow> jsError + (nat \<rightharpoonup> TPosition)" where
  "seedParents g start [] pm = Inr pm"
| "seedParents g start (neighbour # ns) pm =
     (case g (generateKey (fst neighbour) (snd neighbour)) of
        None \<Rightarrow> Inl TypeError
      | Some neighbourCell \<Rightarrow> seedParents g start ns (pm(cellId neighbourCell \<mapsto> start)))"

text \<open>The statements of \<open>search\<close> before its \<open>while\<close> loop.\<close>

definition searchInit :: "TGrid \<Rightarrow> aStarState \<Rightarrow> TPosition \<Rightarrow> TPosition \<Rightarrow> STRATEGIES
    \<Rightarrow> jsError + searchState" where
  "searchInit g a start goal strategy =
     (let neighbours = getNeighbours start g in
      case g (generateKey (fst start) (snd start)) of
        None \<Rightarrow> Inl TypeError
      | Some startEl \<Rightarrow>
          (case seedParents g start neighbours Map.empty of
             Inl e \<Rightarrow> Inl e
           | Inr pm \<Rightarrow> Inr \<lparr>grid = g, aStar = initialize strategy a start,
               visited = {cellId startEl}, parentMap = pm, queue = neighbours\<rparr>))"

text \<open>
  The \<open>while (parentMap.has(id of currentPos))\<close> loop of the goal branch. Nothing bounds
  it either.
\<close>

partial_function (option) walkParents :: "TGrid \<Rightarrow> (nat \<rightharpoonup> TPosition) \<Rightarrow> TPosition
    \<Rightarrow> TPosition list \<Rightarrow> (jsError + TPosition list) option" where
  "walkParents g pm currentPos path =
     (case g (generateKey (fst currentPos) (snd currentPos)) of
        None \<Rightarrow> Some (Inl TypeError)
      | Some c \<Rightarrow>
          (case pm (cellId c) of
             None \<Rightarrow> Some (Inr path)
           | Some parent \<Rightarrow> walkParents g pm parent (path @ [currentPos])))"

text \<open>\<open>path.forEach\<close> of the goal branch: every cell that is not the goal becomes a path cell.\<close>

fun markPath :: "TPosition list \<Rightarrow> TGrid \<Rightarrow> jsError + TGrid" where
  "markPath [] g = Inr g"
| "markPath (p # ps) g =
     (let key = generateKey (fst p) (snd p) in
      case g key of
        None \<Rightarrow> Inl TypeError
      | Some c \<Rightarrow>
          markPath ps (if \<not> isGoal (state c) then g(key \<mapsto> pathCell (cellId c)) else g))"

text \<open>The A* branch: \<open>cell.state.isPath = false\<close> on every cell of the grid.\<close>

definition clearPath :: "TGrid \<Rightarrow> TGrid" where
  "clearPath g = (\<lambda>key. case g key of
       None \<Rightarrow> None
     | Some c \<Rightarrow> Some (if isPath (state c) then c\<lparr>state := (state c)\<lparr>isPath := False\<rparr>\<rparr> else c))"

text \<open>\<open>optimalPath.forEach\<close>: every cell that is neither goal nor start becomes a path cell.\<close>

fun markOptimalPath :: "TPosition list \<Rightarrow> TGrid \<Rightarrow> jsError + TGrid" where
  "markOptimalPath [] g = Inr g"
| "markOptimalPath (p # ps) g =
     (let key = generateKey (fst p) (snd p) in
      case g key of
        None \<Rightarrow> Inl TypeError
      | Some c \<Rightarrow>
          markOptimalPath ps
            (if \<not> isGoal (state c) \<and> \<not> isStart (state c) then g(key \<mapsto> pathCell (cellId c))
             else g))"

definition redrawOptimalPath :: "aStarState \<Rightarrow> TGrid \<Rightarrow> (jsError + TGrid) option" where
  "redrawOptimalPath a g =
     (case getOptimalPath a of
        None \<Rightarrow> None
      | Some optimalPath \<Rightarrow> Some (markOptimalPath optimalPath (clearPath g)))"

text \<open>
  \<open>nextNeighbours.forEach\<close>. \<open>processNeighbour\<close> is called (and the A* fields change)
  only when the neighbour's id is not visited and the neighbour is not a wall.
\<close>

fun expandNeighbours :: "STRATEGIES \<Rightarrow> TPosition \<Rightarrow> TPosition list \<Rightarrow> searchState
    \<Rightarrow> jsError + searchState" where
  "expandNeighbours strategy currentPos [] st = Inr st"
| "expandNeighbours strategy currentPos (neighbour # ns) st =
     (case grid st (generateKey (fst neighbour) (snd neighbour)) of
        None \<Rightarrow> Inl TypeError
      | Some nCell \<Rightarrow>
          if cellId nCell \<notin> visited st \<and> \<not> isWall (state nCell)
          then (case processNeighbour strategy (aStar st) currentPos neighbour of
                  (True, a') \<Rightarrow>
                    expandNeighbours strategy currentPos ns
                      (st\<lparr>aStar := a', queue := queue st @ [neighbour],
                          parentMap := (parentMap st)(cellId nCell \<mapsto> currentPos)\<rparr>)
                | (False, a') \<Rightarrow> expandNeighbours strategy currentPos ns (st\<lparr>aStar := a'\<rparr>))
          else expandNeighbours strategy currentPos ns st)"

text \<open>
  \<open>queue.forEach\<close> of the strategies other than A*: every queued position whose cell is not
  goal, start, visited or wall becomes a queued cell.
\<close>

fun retagQueue :: "TPosition list \<Rightarrow> TGrid \<Rightarrow> jsError + TGrid" where
  "retagQueue [] g = Inr g"
| "retagQueue (p # ps) g =
     (let key = generateKey (fst p) (snd p) in
      case g key of
        None \<Rightarrow> Inl TypeError
      | Some c \<Rightarrow>
          retagQueue ps
            (if \<not> isGoal (state c) \<and> \<not> isStart (state c) \<and> \<not> isVisited (state c)
                \<and> \<not> isWall (state c)
             then g(key \<mapsto> queuedCell (cellId c)) else g))"

text \<open>The goal branch, after \<open>visited.add(cell.id)\<close>.\<close>

definition visitGoal :: "TPosition \<Rightarrow> searchState \<Rightarrow> outcome option" where
  "visitGoal current st =
     (case walkParents (grid st) (parentMap st) current [] of
        None \<Rightarrow> None
      | Some (Inl e) \<Rightarrow> Some (Threw e)
      | Some (Inr path) \<Rightarrow>
          (case markPath path (grid st) of
             Inl e \<Rightarrow> Some (Threw e)
           | Inr newGrid \<Rightarrow> Some (Returned path (st\<lparr>grid := newGrid\<rparr>))))"

text \<open>The rest of the loop body for a cell that is not the goal, up to \<open>yield false\<close>.\<close>

definition visitOther :: "STRATEGIES \<Rightarrow> TPosition \<Rightarrow> ICell \<Rightarrow> searchState \<Rightarrow> outcome option" where
  "visitOther strategy current cell st =
     (case (if strategy = AStar then redrawOptimalPath (aStar st) (grid st)
            else Some (Inr (grid st))) of
        None \<Rightarrow> None
      | Some (Inl e) \<Rightarrow> Some (Threw e)
      | Some (Inr g1) \<Rightarrow>
          (let g2 = (if strategy \<noteq> AStar
                     then g1(generateKey (fst current) (snd current) \<mapsto> visitedCell (cellId cell))
                     else g1)
           in case expandNeighbours strategy current (getNeighbours current (grid st))
                     (st\<lparr>grid := g2\<rparr>) of
                Inl e \<Rightarrow> Some (Threw e)
              | Inr st3 \<Rightarrow>
                  (case (if strategy \<noteq> AStar then retagQueue (queue st3) (grid st3)
                         else Inr (grid st3)) of
                     Inl e \<Rightarrow> Some (Threw e)
                   | Inr g4 \<Rightarrow> Some (Yielded False (st3\<lparr>grid := g4\<rparr>)))))"

lemma scanMin_less:
  "q \<noteq> [] \<Longrightarrow> scanMin a goal q 0 None None = Some i \<Longrightarrow> i < length q"
  using scanMin_Some [of q a goal] by auto

lemma getNextNode_shorter:
  assumes "getNextNode strategy a q goal = (Some current, q')"
  shows "length q' < length q"
proof (cases strategy)
  case BFS
  with assms show ?thesis by (auto simp: getNextNode_def split: list.splits)
next
  case DFS
  with assms show ?thesis by (auto simp: getNextNode_def split: if_splits)
next
  case AStar
  with assms obtain i where i: "scanMin a goal q 0 None None = Some i"
    and q': "q' = take i q @ drop (Suc i) q"
    by (auto simp: getNextNode_def split: option.splits)
  have "q \<noteq> []"
    using i by (cases q) auto
  from scanMin_less [OF this i] q' show ?thesis by simp
qed

text \<open>
  One call of \<open>next()\<close> on a started generator: the \<open>while (queue.length > 0)\<close> loop up
  to its next \<open>yield\<close> or \<open>return\<close>. A popped wall, start or visited cell is a
  \<open>continue\<close>; an empty queue or a \<open>null\<close> node leaves the loop for \<open>yield true\<close>.
\<close>

function searchLoop :: "STRATEGIES \<Rightarrow> TPosition \<Rightarrow> searchState \<Rightarrow> outcome option" where
  "searchLoop strategy goal st =
     (if queue st = [] then Some (Yielded True st)
      else case getNextNode strategy (aStar st) (queue st) goal of
        (None, q) \<Rightarrow> Some (Yielded True (st\<lparr>queue := q\<rparr>))
      | (Some current, q) \<Rightarrow>
          (case grid st (generateKey (fst current) (snd current)) of
             None \<Rightarrow> Some (Threw TypeError)
           | Some cell \<Rightarrow>
               if isWall (state cell) \<or> isStart (state cell)
               then searchLoop strategy goal (st\<lparr>queue := q\<rparr>)
               else if cellId cell \<in> visited st
               then searchLoop strategy goal (st\<lparr>queue := q\<rparr>)
               else if isGoal (state cell)
               then visitGoal current (st\<lparr>queue := q, visited := insert (cellId cell) (visited st)\<rparr>)
               else visitOther strategy current cell
                      (st\<lparr>queue := q, visited := insert (cellId cell) (visited st)\<rparr>)))"
  by pat_completeness auto
termination
  by (relation "measure (\<lambda>(strategy, goal, st). length (queue st))")
     (auto dest: getNextNode_shorter sym)

declare searchLoop.simps [simp del]

section \<open>The driver's step: \<open>searchWrapper\<close>\<close>

text \<open>
  A generator object of \<open>search\<close>: created and not yet started (it holds its arguments),
  suspended at \<open>yield false\<close> (it holds its arguments and locals), suspended at
  \<open>yield true\<close>, or completed.
\<close>

datatype generator =
    NotStarted TPosition TPosition STRATEGIES
  | AtYieldFalse TPosition TPosition STRATEGIES "nat set" "nat \<rightharpoonup> TPosition" "TPosition list"
  | AtYieldTrue
  | Completed

text \<open>The result of \<open>next()\<close>: \<open>{value, done}\<close>; the value is \<open>None\<close> for \<open>undefined\<close>.\<close>

record iteratorResult =
  resValue :: "bool option"
  resDone :: bool

text \<open>
  \<open>next()\<close>: the iterator result, the generator afterwards, and the grid signal and the
  A* object as the body left them.
\<close>

definition fromOutcome :: "TPosition \<Rightarrow> TPosition \<Rightarrow> STRATEGIES \<Rightarrow> outcome
    \<Rightarrow> jsError + (iteratorResult \<times> generator \<times> TGrid \<times> aStarState)" where
  "fromOutcome s g strat out =
     (case out of
        Threw e \<Rightarrow> Inl e
      | Yielded False st \<Rightarrow>
          Inr (\<lparr>resValue = Some False, resDone = False\<rparr>,
               AtYieldFalse s g strat (visited st) (parentMap st) (queue st), grid st, aStar st)
      | Yielded True st \<Rightarrow>
          Inr (\<lparr>resValue = Some True, resDone = False\<rparr>, AtYieldTrue, grid st, aStar st)
      | Returned path st \<Rightarrow>
          Inr (\<lparr>resValue = None, resDone = True\<rparr>, Completed, grid st, aStar st))"

definition generatorNext :: "generator \<Rightarrow> TGrid \<Rightarrow> aStarState
    \<Rightarrow> (jsError + (iteratorResult \<times> generator \<times> TGrid \<times> aStarState)) option" where
  "generatorNext gen g a =
     (case gen of
        NotStarted s gl strat \<Rightarrow>
          (case searchInit g a s gl strat of
             Inl e \<Rightarrow> Some (Inl e)
           | Inr st \<Rightarrow> map_option (fromOutcome s gl strat) (searchLoop strat gl st))
      | AtYieldFalse s gl strat v pm q \<Rightarrow>
          map_option (fromOutcome s gl strat)
            (searchLoop strat gl \<lparr>grid = g, aStar = a, visited = v, parentMap = pm, queue = q\<rparr>)
      | AtYieldTrue \<Rightarrow> Some (Inr (\<lparr>resValue = None, resDone = True\<rparr>, Completed, g, a))
      | Completed \<Rightarrow> Some (Inr (\<lparr>resValue = None, resDone = True\<rparr>, Completed, g, a)))"

text \<open>
  The signals and variables of \<open>App\<close> that \<open>searchWrapper\<close> reads or writes. The timer
  calls \<open>searchWrapper\<close> only while \<open>isSearching() && start() && goal() && canStep()\<close>,
  so the start and goal signals hold positions.
\<close>

record app =
  gridSignal :: TGrid
  aStarStrategy :: aStarState
  startSignal :: TPosition
  goalSignal :: TPosition
  strategySignal :: STRATEGIES
  searchGeneratorRef :: "generator option"
  canStep :: bool

definition searchWrapper :: "app \<Rightarrow> (jsError + app) option" where
  "searchWrapper ap =
     (let gen = (case searchGeneratorRef ap of
                   None \<Rightarrow> NotStarted (startSignal ap) (goalSignal ap) (strategySignal ap)
                 | Some gen \<Rightarrow> gen)
      in case generatorNext gen (gridSignal ap) (aStarStrategy ap) of
           None \<Rightarrow> None
         | Some (Inl e) \<Rightarrow> Some (Inl e)
         | Some (Inr (res, gen', g', a')) \<Rightarrow>
             Some (Inr (ap\<lparr>gridSignal := g', aStarStrategy := a', canStep := \<not> resDone res,
                           searchGeneratorRef := (if resDone res then None else Some gen')\<rparr>)))"

text \<open>\<open>n\<close> ticks of the timer, each calling \<open>searchWrapper\<close>, stopping at an exception.\<close>

fun ticks :: "nat \<Rightarrow> app \<Rightarrow> (jsError + app) option" where
  "ticks 0 ap = Some (Inr ap)"
| "ticks (Suc n) ap =
     (case searchWrapper ap of
        None \<Rightarrow> None
      | Some (Inl e) \<Rightarrow> Some (Inl e)
      | Some (Inr ap') \<Rightarrow> ticks n ap')"

text \<open>
  The driver calls \<open>next()\<close> again while the call before yielded \<open>false\<close>. \<open>searchRun n\<close>
  makes at most \<open>n\<close> calls and gives the first outcome that is not a yield of \<open>false\<close>;
  \<open>None\<close> when there is none within \<open>n\<close> calls or a call does not end.
\<close>

fun searchRun :: "nat \<Rightarrow> STRATEGIES \<Rightarrow> TPosition \<Rightarrow> searchState \<Rightarrow> outcome option" where
  "searchRun 0 strategy goal st = None"
| "searchRun (Suc n) strategy goal st =
     (case searchLoop strategy goal st of
        Some (Yielded False st') \<Rightarrow> searchRun n strategy goal st'
      | r \<Rightarrow> r)"

section \<open>A*: choosing the next node\<close>

text \<open>
  C3. A*'s \<open>getNextNode\<close> on an empty queue returns \<open>null\<close>; on a non-empty queue it
  removes and returns the element at the least index \<open>i\<close> whose \<open>f = g + h\<close> is minimal,
  where \<open>g\<close> is the score recorded for the element in \<open>gScore\<close>, 0 when none is recorded,
  and \<open>h\<close> is the sum of the absolute differences of its row and column to those of the
  goal: no element has a smaller \<open>f\<close> and every element before \<open>i\<close> has a strictly larger
  one.
\<close>

theorem getNextNode_AStar_min:
  "getNextNode AStar a [] goal = (None, []) \<and>
   (frontier \<noteq> [] \<longrightarrow>
     (\<exists>i < length frontier.
        getNextNode AStar a frontier goal
          = (Some (frontier ! i), take i frontier @ drop (Suc i) frontier)
        \<and> (\<forall>j < length frontier.
              (case gScore a (frontier ! i) of None \<Rightarrow> 0 | Some g \<Rightarrow> g)
                  + (\<bar>fst (frontier ! i) - fst goal\<bar> + \<bar>snd (frontier ! i) - snd goal\<bar>)
                \<le> (case gScore a (frontier ! j) of None \<Rightarrow> 0 | Some g \<Rightarrow> g)
                  + (\<bar>fst (frontier ! j) - fst goal\<bar> + \<bar>snd (frontier ! j) - snd goal\<bar>))
        \<and> (\<forall>j < i.
              (case gScore a (frontier ! i) of None \<Rightarrow> 0 | Some g \<Rightarrow> g)
                  + (\<bar>fst (frontier ! i) - fst goal\<bar> + \<bar>snd (frontier ! i) - snd goal\<bar>)
                < (case gScore a (frontier ! j) of None \<Rightarrow> 0 | Some g \<Rightarrow> g)
                  + (\<bar>fst (frontier ! j) - fst goal\<bar> + \<bar>snd (frontier ! j) - snd goal\<bar>))))"
proof (intro conjI impI)
  show "getNextNode AStar a [] goal = (None, [])"
    by (simp add: getNextNode_def)
next
  assume "frontier \<noteq> []"
  have f: "fScore a goal p = (case gScore a p of None \<Rightarrow> 0 | Some g \<Rightarrow> g)
      + (\<bar>fst p - fst goal\<bar> + \<bar>snd p - snd goal\<bar>)" for p
    by (simp add: fScore_def gOr0_def manhattanDistance_def case_prod_unfold)
  from scanMin_Some [OF \<open>frontier \<noteq> []\<close>, of a goal] obtain i where
    "i < length frontier" "scanMin a goal frontier 0 None None = Some i"
    "\<forall>j < length frontier. fScore a goal (frontier ! i) \<le> fScore a goal (frontier ! j)"
    "\<forall>j < i. fScore a goal (frontier ! i) < fScore a goal (frontier ! j)"
    by blast
  then show "\<exists>i < length frontier.
        getNextNode AStar a frontier goal
          = (Some (frontier ! i), take i frontier @ drop (Suc i) frontier)
        \<and> (\<forall>j < length frontier.
              (case gScore a (frontier ! i) of None \<Rightarrow> 0 | Some g \<Rightarrow> g)
                  + (\<bar>fst (frontier ! i) - fst goal\<bar> + \<bar>snd (frontier ! i) - snd goal\<bar>)
                \<le> (case gScore a (frontier ! j) of None \<Rightarrow> 0 | Some g \<Rightarrow> g)
                  + (\<bar>fst (frontier ! j) - fst goal\<bar> + \<bar>snd (frontier ! j) - snd goal\<bar>))
        \<and> (\<forall>j < i.
              (case gScore a (frontier ! i) of None \<Rightarrow> 0 | Some g \<Rightarrow> g)
                  + (\<bar>fst (frontier ! i) - fst goal\<bar> + \<bar>snd (frontier ! i) - snd goal\<bar>)
                < (case gScore a (frontier ! j) of None \<Rightarrow> 0 | Some g \<Rightarrow> g)
                  + (\<bar>fst (frontier ! j) - fst goal\<bar> + \<bar>snd (frontier ! j) - snd goal\<bar>))"
    unfolding f [symmetric] by (intro exI [of _ i]) (simp add: getNextNode_def)
qed

text \<open>
  In the witness \<open>(1, 1)\<close> is nearest to the goal but has the recorded score 5; \<open>(3, 2)\<close>
  has no score and \<open>(0, 2)\<close> has the score 1, so both have \<open>f = 2\<close>, and the first of them
  is taken.
\<close>

theorem getNextNode_AStar_min_witness:
  "getNextNode AStar \<lparr>gScore = [(0, 0) \<mapsto> 0, (1, 1) \<mapsto> 5, (0, 2) \<mapsto> 1], aParentMap = []\<rparr>
       [] (1, 2) = (None, []) \<and>
   getNextNode AStar \<lparr>gScore = [(0, 0) \<mapsto> 0, (1, 1) \<mapsto> 5, (0, 2) \<mapsto> 1], aParentMap = []\<rparr>
       [(1, 1), (3, 2), (0, 2)] (1, 2)
     = (Some (3, 2), [(1, 1), (0, 2)])"
  using getNextNode_AStar_min
    [of "\<lparr>gScore = [(0, 0) \<mapsto> 0, (1, 1) \<mapsto> 5, (0, 2) \<mapsto> 1], aParentMap = []\<rparr>" "(1, 2)"
        "[(1, 1), (3, 2), (0, 2)]"]
  by (simp add: getNextNode_def fScore_def gOr0_def generateKey_def manhattanDistance_def)

section \<open>A*: relaxing a neighbour\<close>

text \<open>
  C4. A*'s \<open>processNeighbour\<close> computes \<open>tentativeG\<close> as the score recorded in \<open>gScore\<close>
  for the current position, 0 when none is recorded, plus 1. It returns \<open>true\<close> exactly
  when the neighbour has no recorded score or \<open>tentativeG\<close> is strictly smaller than the
  recorded one; then the neighbour's score is \<open>tentativeG\<close>, its parent is the current
  position and no other key changes. Otherwise it returns \<open>false\<close> and changes nothing.
\<close>

theorem processNeighbour_AStar_relax:
  "(fst (processNeighbour AStar a currentPos neighbour) \<longleftrightarrow>
      (case gScore a neighbour of
         None \<Rightarrow> True
       | Some g \<Rightarrow> (case gScore a currentPos of None \<Rightarrow> 0 | Some gc \<Rightarrow> gc) + 1 < g)) \<and>
   (fst (processNeighbour AStar a currentPos neighbour) \<longrightarrow>
      gScore (snd (processNeighbour AStar a currentPos neighbour)) neighbour
        = Some ((case gScore a currentPos of None \<Rightarrow> 0 | Some gc \<Rightarrow> gc) + 1)
      \<and> map_of (aParentMap (snd (processNeighbour AStar a currentPos neighbour))) neighbour
        = Some currentPos
      \<and> (\<forall>k. k \<noteq> neighbour \<longrightarrow>
            gScore (snd (processNeighbour AStar a currentPos neighbour)) k = gScore a k
            \<and> map_of (aParentMap (snd (processNeighbour AStar a currentPos neighbour))) k
               = map_of (aParentMap a) k)) \<and>
   (\<not> fst (processNeighbour AStar a currentPos neighbour) \<longrightarrow>
      snd (processNeighbour AStar a currentPos neighbour) = a)"
  by (simp add: processNeighbour_def gOr0_def generateKey_def Let_def update_conv'
      split: option.split)

text \<open>
  In the witness the current position \<open>(0, 2)\<close> has the score 2: the neighbour \<open>(1, 2)\<close>,
  recorded with 7, gets the score 3 and the parent \<open>(0, 2)\<close>, in its old place of the
  parent map; relaxed again from there it keeps both. From \<open>(3, 3)\<close>, which has no score,
  it gets the score 1.
\<close>

theorem processNeighbour_AStar_relax_witness:
  "processNeighbour AStar
        \<lparr>gScore = [(0, 0) \<mapsto> 0, (0, 2) \<mapsto> 2, (1, 2) \<mapsto> 7],
         aParentMap = [((0, 2), (0, 1)), ((1, 2), (1, 1)), ((2, 2), (2, 1))]\<rparr> (0, 2) (1, 2)
     = (True, \<lparr>gScore = [(0, 0) \<mapsto> 0, (0, 2) \<mapsto> 2, (1, 2) \<mapsto> 3],
         aParentMap = [((0, 2), (0, 1)), ((1, 2), (0, 2)), ((2, 2), (2, 1))]\<rparr>)
   \<and> processNeighbour AStar
        \<lparr>gScore = [(0, 0) \<mapsto> 0, (0, 2) \<mapsto> 2, (1, 2) \<mapsto> 3],
         aParentMap = [((0, 2), (0, 1)), ((1, 2), (0, 2)), ((2, 2), (2, 1))]\<rparr> (0, 2) (1, 2)
     = (False, \<lparr>gScore = [(0, 0) \<mapsto> 0, (0, 2) \<mapsto> 2, (1, 2) \<mapsto> 3],
         aParentMap = [((0, 2), (0, 1)), ((1, 2), (0, 2)), ((2, 2), (2, 1))]\<rparr>)
   \<and> processNeighbour AStar
        \<lparr>gScore = [(0, 0) \<mapsto> 0, (0, 2) \<mapsto> 2, (1, 2) \<mapsto> 3],
         aParentMap = [((0, 2), (0, 1)), ((1, 2), (0, 2)), ((2, 2), (2, 1))]\<rparr> (3, 3) (1, 2)
     = (True, \<lparr>gScore = [(0, 0) \<mapsto> 0, (0, 2) \<mapsto> 2, (1, 2) \<mapsto> 1],
         aParentMap = [((0, 2), (0, 1)), ((1, 2), (3, 3)), ((2, 2), (2, 1))]\<rparr>)"
  using processNeighbour_AStar_relax
    [of "\<lparr>gScore = [(0, 0) \<mapsto> 0, (0, 2) \<mapsto> 2, (1, 2) \<mapsto> 7],
          aParentMap = [((0, 2), (0, 1)), ((1, 2), (1, 1)), ((2, 2), (2, 1))]\<rparr>" "(0, 2)" "(1, 2)"]
  by (simp add: processNeighbour_def gOr0_def generateKey_def Let_def)

section \<open>The walk of \<open>getOptimalPath\<close>\<close>

text \<open>
  \<open>parentChain pm k ps\<close>: \<open>ps\<close> is the sequence of parents met from key \<open>k\<close> on, each the
  parent recorded for the key of the one before, and the last one's key has no entry.
\<close>

fun parentChain :: "(TPosition \<times> TPosition) list \<Rightarrow> TPosition \<Rightarrow> TPosition list \<Rightarrow> bool" where
  "parentChain pm k [] = (map_of pm k = None)"
| "parentChain pm k (p # ps) =
     (map_of pm k = Some p \<and> parentChain pm (generateKey (fst p) (snd p)) ps)"

lemma optimalWalk_chain:
  "parentChain pm k ps \<Longrightarrow> optimalWalk pm k acc = Some (acc @ ps)"
proof (induction ps arbitrary: k acc)
  case Nil
  then show ?case by (subst optimalWalk.simps) simp
next
  case (Cons p ps)
  from Cons.prems have p: "map_of pm k = Some p" and c: "parentChain pm p ps" by simp_all
  have "optimalWalk pm k acc = optimalWalk pm p (acc @ [p])"
    by (subst optimalWalk.simps) (simp add: p)
  also have "\<dots> = Some ((acc @ [p]) @ ps)" by (rule Cons.IH [OF c])
  finally show ?case by simp
qed

lemma optimalWalk_returns:
  assumes "optimalWalk pm k acc = Some path"
  shows "\<exists>ps. path = acc @ ps \<and> parentChain pm k ps"
proof (rule optimalWalk.raw_induct [OF _ assms])
  fix walk pm k acc path
  assume IH: "\<And>pm k acc path. walk pm k acc = Some path
      \<Longrightarrow> \<exists>ps. path = acc @ ps \<and> parentChain pm k ps"
    and body: "(case map_of pm k of None \<Rightarrow> Some acc
      | Some currentPos \<Rightarrow>
          walk pm (generateKey (fst currentPos) (snd currentPos)) (acc @ [currentPos]))
      = Some path"
  show "\<exists>ps. path = acc @ ps \<and> parentChain pm k ps"
  proof (cases "map_of pm k")
    case None
    with body show ?thesis by simp
  next
    case (Some p)
    with body have "walk pm p (acc @ [p]) = Some path" by simp
    from IH [OF this] obtain ps where "path = (acc @ [p]) @ ps" "parentChain pm p ps"
      by blast
    with Some show ?thesis by (intro exI [of _ "p # ps"]) simp
  qed
qed

text \<open>A set of keys closed under the parent link: the walk from any of them never ends.\<close>

lemma optimalWalk_cycle:
  assumes K: "\<forall>k \<in> K. \<exists>p. map_of pm k = Some p \<and> p \<in> K" and k: "k \<in> K"
  shows "optimalWalk pm k acc = None"
proof (cases "optimalWalk pm k acc")
  case None
  then show ?thesis .
next
  case (Some path)
  have "pm = pm \<longrightarrow> k \<in> K \<longrightarrow> False"
  proof (rule optimalWalk.raw_induct [OF _ Some,
        where P = "\<lambda>pm' k' acc' path'. pm' = pm \<longrightarrow> k' \<in> K \<longrightarrow> False"])
    fix walk pm' k' acc' path'
    assume IH: "\<And>pm'' k'' acc'' path''. walk pm'' k'' acc'' = Some path''
        \<Longrightarrow> pm'' = pm \<longrightarrow> k'' \<in> K \<longrightarrow> False"
      and body: "(case map_of pm' k' of None \<Rightarrow> Some acc'
        | Some currentPos \<Rightarrow>
            walk pm' (generateKey (fst currentPos) (snd currentPos)) (acc' @ [currentPos]))
        = Some path'"
    show "pm' = pm \<longrightarrow> k' \<in> K \<longrightarrow> False"
    proof (intro impI)
      assume e: "pm' = pm" and k': "k' \<in> K"
      with K obtain p where p: "map_of pm' k' = Some p" "p \<in> K" by blast
      with body have "walk pm' p (acc' @ [p]) = Some path'" by simp
      from IH [OF this] e p show False by simp
    qed
  qed
  with k show ?thesis by simp
qed

lemma last_key_update_new:
  "map_of al k = None \<Longrightarrow> fst (last (AList.update k v al)) = k"
proof -
  assume "map_of al k = None"
  then have "k \<notin> set (map fst al)" by (simp add: map_of_eq_None_iff)
  then have "map fst (AList.update k v al) = map fst al @ [k]" by (simp add: update_keys)
  moreover have "AList.update k v al \<noteq> []" by (cases al) auto
  ultimately show ?thesis by (metis last_map last_snoc)
qed

lemma last_key_update_old:
  assumes "map_of al k \<noteq> None"
  shows "al \<noteq> [] \<and> fst (last (AList.update k v al)) = fst (last al)"
proof -
  from assms have in_keys: "k \<in> set (map fst al)" by (simp add: map_of_eq_None_iff)
  then have ne: "al \<noteq> []" by auto
  from in_keys have "map fst (AList.update k v al) = map fst al" by (simp add: update_keys)
  moreover have "AList.update k v al \<noteq> []" by (cases al) auto
  ultimately show ?thesis using ne by (metis last_map)
qed

text \<open>
  C6. \<open>getOptimalPath\<close> takes no goal: on an empty parent map it returns the empty path, and
  otherwise it returns \<open>path\<close> exactly when \<open>path\<close> is the chain of parents from the last key
  of the strategy's own parent map, in insertion order, up to a key with no entry. A relax
  that records a parent for a key not yet in the map makes that key the last one; a relax on
  a key already in the map leaves the last key as it was.
\<close>

theorem getOptimalPath_from_last_key:
  "(aParentMap a = [] \<longrightarrow> getOptimalPath a = Some []) \<and>
   (aParentMap a \<noteq> [] \<longrightarrow>
      (getOptimalPath a = Some path
        \<longleftrightarrow> parentChain (aParentMap a) (fst (last (aParentMap a))) path)) \<and>
   (fst (processNeighbour AStar a currentPos neighbour) \<and> map_of (aParentMap a) neighbour = None
      \<longrightarrow> fst (last (aParentMap (snd (processNeighbour AStar a currentPos neighbour))))
            = neighbour) \<and>
   (map_of (aParentMap a) neighbour \<noteq> None
      \<longrightarrow> fst (last (aParentMap (snd (processNeighbour AStar a currentPos neighbour))))
            = fst (last (aParentMap a)))"
proof (intro conjI impI)
  assume "aParentMap a = []"
  then show "getOptimalPath a = Some []" by (simp add: getOptimalPath_def)
next
  assume ne: "aParentMap a \<noteq> []"
  show "getOptimalPath a = Some path
      \<longleftrightarrow> parentChain (aParentMap a) (fst (last (aParentMap a))) path"
  proof
    assume "getOptimalPath a = Some path"
    with ne have "optimalWalk (aParentMap a) (fst (last (aParentMap a))) [] = Some path"
      by (simp add: getOptimalPath_def)
    from optimalWalk_returns [OF this]
    show "parentChain (aParentMap a) (fst (last (aParentMap a))) path" by simp
  next
    assume "parentChain (aParentMap a) (fst (last (aParentMap a))) path"
    from optimalWalk_chain [OF this, of "[]"] ne
    show "getOptimalPath a = Some path" by (simp add: getOptimalPath_def)
  qed
next
  assume "fst (processNeighbour AStar a currentPos neighbour)
      \<and> map_of (aParentMap a) neighbour = None"
  then show "fst (last (aParentMap (snd (processNeighbour AStar a currentPos neighbour))))
      = neighbour"
    by (auto simp: processNeighbour_def Let_def last_key_update_new split: if_splits)
next
  assume "map_of (aParentMap a) neighbour \<noteq> None"
  then show "fst (last (aParentMap (snd (processNeighbour AStar a currentPos neighbour))))
      = fst (last (aParentMap a))"
    by (auto simp: processNeighbour_def Let_def last_key_update_old split: if_splits)
qed

text \<open>
  In the witness the goal \<open>(0, 0)\<close> has the recorded parent \<open>(0, 1)\<close>, and the path comes
  from the last key \<open>(2, 0)\<close> instead.
\<close>

theorem getOptimalPath_from_last_key_witness:
  "getOptimalPath
     \<lparr>gScore = [(1, 1) \<mapsto> 0, (0, 0) \<mapsto> 1, (0, 2) \<mapsto> 1, (2, 0) \<mapsto> 1],
      aParentMap = [((0, 0), (0, 1)), ((0, 2), (0, 1)), ((2, 0), (1, 0))]\<rparr> = Some [(1, 0)]
   \<and> map_of [((0, 0), (0, 1)), ((0, 2), (0, 1)), ((2, 0), (1, 0 :: int))] (0, 0 :: int)
       = Some (0, 1)"
  using getOptimalPath_from_last_key
    [of "\<lparr>gScore = [(1, 1) \<mapsto> 0, (0, 0) \<mapsto> 1, (0, 2) \<mapsto> 1, (2, 0) \<mapsto> 1],
          aParentMap = [((0, 0), (0, 1)), ((0, 2), (0, 1)), ((2, 0), (1, 0))]\<rparr>"
        "[(1, 0)]" "(1, 0)" "(2, 0)"]
  by (simp add: generateKey_def)

section \<open>Before the loop\<close>

lemma seedParents_Inr:
  "\<forall>n \<in> set ns. g n \<noteq> None \<Longrightarrow>
   \<exists>pm. seedParents g start ns pm0 = Inr pm
     \<and> (\<forall>i. pm i = (if \<exists>n \<in> set ns. \<exists>c. g n = Some c \<and> cellId c = i then Some start
                     else pm0 i))"
proof (induction ns arbitrary: pm0)
  case Nil
  then show ?case by simp
next
  case (Cons n ns)
  from Cons.prems obtain c where c: "g n = Some c" by auto
  from Cons.prems have "\<forall>n \<in> set ns. g n \<noteq> None" by simp
  from Cons.IH [OF this, of "pm0(cellId c \<mapsto> start)"] obtain pm where
    pm: "seedParents g start ns (pm0(cellId c \<mapsto> start)) = Inr pm"
    "\<forall>i. pm i = (if \<exists>n \<in> set ns. \<exists>c. g n = Some c \<and> cellId c = i then Some start
                   else (pm0(cellId c \<mapsto> start)) i)"
    by blast
  have "seedParents g start (n # ns) pm0 = Inr pm"
    using c pm(1) by simp
  moreover have "\<forall>i. pm i = (if \<exists>m \<in> set (n # ns). \<exists>c. g m = Some c \<and> cellId c = i
      then Some start else pm0 i)"
    using pm(2) c by auto
  ultimately show ?case by blast
qed

lemma getNeighbours_in_grid: "n \<in> set (getNeighbours p g) \<Longrightarrow> g n \<noteq> None"
  by (cases p) (auto simp add: getNeighbours_def generateKey_def simp del: filter.simps)

lemma getNeighbours_not_self: "p \<notin> set (getNeighbours p g)"
  by (cases p) (auto simp add: getNeighbours_def simp del: filter.simps)

text \<open>
  C7. When the grid has a cell at \<open>start\<close>, the statements before the loop give: the queue
  is the list of the neighbours up, down, left, right of \<open>start\<close> that the grid has, in this
  order, without \<open>start\<close>; the visited set holds the id of the start cell only; the parent
  map sends the id of every queued neighbour to \<open>start\<close> and has no other entry; and the
  strategy object is the one \<open>initialize\<close> leaves (for A*, the score 0 for \<open>start\<close> and no
  parent; for BFS and DFS, unchanged).
\<close>

theorem searchInit_seeds:
  assumes "g start = Some startEl"
  shows "\<exists>pm. searchInit g a start goal strategy
           = Inr \<lparr>grid = g, aStar = initialize strategy a start, visited = {cellId startEl},
                  parentMap = pm, queue = getNeighbours start g\<rparr>
     \<and> (\<forall>i. pm i = (if \<exists>n \<in> set (getNeighbours start g). \<exists>c. g n = Some c \<and> cellId c = i
                     then Some start else None))
     \<and> getNeighbours start g = filter (\<lambda>p. g p \<noteq> None)
          [(fst start - 1, snd start), (fst start + 1, snd start),
           (fst start, snd start - 1), (fst start, snd start + 1)]
     \<and> start \<notin> set (getNeighbours start g)
     \<and> initialize AStar a start = \<lparr>gScore = [start \<mapsto> 0], aParentMap = []\<rparr>
     \<and> initialize BFS a start = a \<and> initialize DFS a start = a"
proof -
  have "\<forall>n \<in> set (getNeighbours start g). g n \<noteq> None"
    by (simp add: getNeighbours_in_grid)
  from seedParents_Inr [OF this, of start Map.empty] obtain pm where
    pm: "seedParents g start (getNeighbours start g) Map.empty = Inr pm"
    "\<forall>i. pm i = (if \<exists>n \<in> set (getNeighbours start g). \<exists>c. g n = Some c \<and> cellId c = i
                   then Some start else None)"
    by auto
  have 1: "searchInit g a start goal strategy
      = Inr \<lparr>grid = g, aStar = initialize strategy a start, visited = {cellId startEl},
             parentMap = pm, queue = getNeighbours start g\<rparr>"
    using assms pm(1) by (simp add: searchInit_def Let_def)
  have 2: "getNeighbours start g = filter (\<lambda>p. g p \<noteq> None)
      [(fst start - 1, snd start), (fst start + 1, snd start),
       (fst start, snd start - 1), (fst start, snd start + 1)]"
    by (cases start) (simp add: getNeighbours_def generateKey_def)
  have 3: "initialize AStar a start = \<lparr>gScore = [start \<mapsto> 0], aParentMap = []\<rparr>"
    "initialize BFS a start = a" "initialize DFS a start = a"
    by (simp_all add: initialize_def aStarInitialize_def)
  from 1 pm(2) 2 3 getNeighbours_not_self [of start g] show ?thesis by blast
qed

section \<open>Example grids\<close>

text \<open>
  A grid as the painting leaves it: \<open>initialGrid\<close>, then a start cell and a goal cell built
  by the factory, each keeping the id of the cell it replaces. The ids number the cells of a
  grid of at most three columns row by row.
\<close>

definition exampleIds :: "TPosition \<Rightarrow> nat" where
  "exampleIds p = nat (3 * fst p + snd p)"

definition exampleGrid :: "int \<Rightarrow> int \<Rightarrow> TPosition \<Rightarrow> TPosition \<Rightarrow> TGrid" where
  "exampleGrid rows columns s g =
     (initialGrid exampleIds rows columns)
       (s \<mapsto> startCell (exampleIds s), g \<mapsto> goalCell (exampleIds g))"

definition exampleApp :: "STRATEGIES \<Rightarrow> int \<Rightarrow> int \<Rightarrow> TPosition \<Rightarrow> TPosition \<Rightarrow> app" where
  "exampleApp strat rows columns s g =
     \<lparr>gridSignal = exampleGrid rows columns s g,
      aStarStrategy = \<lparr>gScore = Map.empty, aParentMap = []\<rparr>,
      startSignal = s, goalSignal = g, strategySignal = strat,
      searchGeneratorRef = None, canStep = True\<rparr>"

lemmas example_defs = exampleApp_def exampleGrid_def exampleIds_def initialGrid_def
  startCell_def goalCell_def pathCell_def visitedCell_def queuedCell_def defaultCell_def
  wallCell_def defaultState_def

lemmas search_eval = searchWrapper_def generatorNext_def fromOutcome_def searchInit_def
  getNeighbours_def generateKey_def searchLoop.simps getNextNode_def visitGoal_def
  visitOther_def walkParents.simps redrawOptimalPath_def getOptimalPath_def
  optimalWalk.simps clearPath_def processNeighbour_def initialize_def aStarInitialize_def
  fScore_def gOr0_def manhattanDistance_def Let_def eval_nat_numeral

theorem searchInit_seeds_witness:
  "(case searchInit (exampleGrid 1 3 (0, 0) (0, 2)) \<lparr>gScore = Map.empty, aParentMap = []\<rparr>
           (0, 0) (0, 2) AStar of
      Inl e \<Rightarrow> False
    | Inr st \<Rightarrow> queue st = [(0, 1)] \<and> visited st = {0} \<and> parentMap st 1 = Some (0, 0)
        \<and> parentMap st 0 = None \<and> parentMap st 2 = None
        \<and> gScore (aStar st) (0, 0) = Some 0 \<and> aParentMap (aStar st) = [])"
proof -
  have h: "exampleGrid 1 3 (0, 0) (0, 2) (0, 0) = Some (startCell 0)"
    by (simp add: example_defs)
  show ?thesis
    using searchInit_seeds [where g = "exampleGrid 1 3 (0, 0) (0, 2)" and start = "(0, 0)"
        and startEl = "startCell 0" and a = "\<lparr>gScore = Map.empty, aParentMap = []\<rparr>"
        and goal = "(0, 2)" and strategy = AStar, OF h]
    by (simp add: example_defs search_eval)
qed

section \<open>One call of \<open>next()\<close>, case by case\<close>

text \<open>The state an outcome carries, if any.\<close>

fun outcomeState :: "outcome \<Rightarrow> searchState option" where
  "outcomeState (Threw e) = None"
| "outcomeState (Yielded b st) = Some st"
| "outcomeState (Returned path st) = Some st"

lemma jsError_eq [simp]: "(e :: jsError) = TypeError"
  by (cases e) simp

lemma getNextNode_in_queue:
  assumes "getNextNode strategy a q goal = (Some current, q')"
  shows "current \<in> set q \<and> set q' \<subseteq> set q"
proof (cases strategy)
  case BFS
  with assms show ?thesis by (auto simp: getNextNode_def split: list.splits)
next
  case DFS
  with assms show ?thesis by (auto simp: getNextNode_def split: if_splits dest: in_set_butlastD)
next
  case AStar
  with assms obtain i where i: "scanMin a goal q 0 None None = Some i"
    and q': "q' = take i q @ drop (Suc i) q" and c: "current = q ! i"
    by (auto simp: getNextNode_def split: option.splits)
  have "q \<noteq> []"
    using i by (cases q) auto
  from scanMin_less [OF this i] have "i < length q" .
  with q' c show ?thesis by (auto dest: in_set_takeD in_set_dropD)
qed

lemma searchLoop_cases [consumes 1, case_names exhausted threw goal other]:
  assumes "searchLoop strategy goal st = Some out"
  obtains
    (exhausted) q where "set q \<subseteq> set (queue st)" "out = Yielded True (st\<lparr>queue := q\<rparr>)"
  | (threw) "out = Threw TypeError"
  | (goal) current cell q where "current \<in> set (queue st)" "set q \<subseteq> set (queue st)"
      "grid st current = Some cell" "\<not> isWall (state cell)" "\<not> isStart (state cell)"
      "cellId cell \<notin> visited st" "isGoal (state cell)"
      "visitGoal current (st\<lparr>queue := q, visited := insert (cellId cell) (visited st)\<rparr>) = Some out"
  | (other) current cell q where "current \<in> set (queue st)" "set q \<subseteq> set (queue st)"
      "grid st current = Some cell" "\<not> isWall (state cell)" "\<not> isStart (state cell)"
      "cellId cell \<notin> visited st" "\<not> isGoal (state cell)"
      "visitOther strategy current cell
         (st\<lparr>queue := q, visited := insert (cellId cell) (visited st)\<rparr>) = Some out"
  using assms
proof (induction "length (queue st)" arbitrary: st thesis rule: less_induct)
  case less
  note sl = less.prems(5)
  show ?case
  proof (cases "queue st = []")
    case True
    with sl have "out = Yielded True (st\<lparr>queue := queue st\<rparr>)"
      by (subst (asm) searchLoop.simps) auto
    then show ?thesis by (intro less.prems(1) [of "queue st"]) simp_all
  next
    case ne: False
    obtain cur q where pop: "getNextNode strategy (aStar st) (queue st) goal = (cur, q)"
      by (cases "getNextNode strategy (aStar st) (queue st) goal")
    show ?thesis
    proof (cases cur)
      case None
      with sl ne pop have out: "out = Yielded True (st\<lparr>queue := q\<rparr>)"
        by (subst (asm) searchLoop.simps) auto
      have "q = queue st \<or> q = []"
        using pop None
        by (cases strategy) (auto simp: getNextNode_def split: list.splits if_splits option.splits)
      then have "set q \<subseteq> set (queue st)" by auto
      with out show ?thesis by (intro less.prems(1) [of q]) simp_all
    next
      case (Some current)
      note pop' = pop [unfolded Some]
      from getNextNode_in_queue [OF pop']
      have inq: "current \<in> set (queue st)" "set q \<subseteq> set (queue st)" by simp_all
      show ?thesis
      proof (cases "grid st current")
        case None
        with sl ne pop' have "out = Threw TypeError"
          by (subst (asm) searchLoop.simps) auto
        then show ?thesis by (rule less.prems(2))
      next
        case (Some cell)
        note cell = this
        consider (skip) "isWall (state cell) \<or> isStart (state cell) \<or> cellId cell \<in> visited st"
          | (isgoal) "\<not> isWall (state cell)" "\<not> isStart (state cell)" "cellId cell \<notin> visited st"
              "isGoal (state cell)"
          | (isother) "\<not> isWall (state cell)" "\<not> isStart (state cell)" "cellId cell \<notin> visited st"
              "\<not> isGoal (state cell)"
          by blast
        then show ?thesis
        proof cases
          case skip
          with sl ne pop' cell
          have sl': "searchLoop strategy goal (st\<lparr>queue := q\<rparr>) = Some out"
            by (subst (asm) searchLoop.simps) (auto split: if_splits)
          have len: "length (queue (st\<lparr>queue := q\<rparr>)) < length (queue st)"
            using getNextNode_shorter [OF pop'] by simp
          show ?thesis
          proof (rule less.hyps [OF len _ _ _ _ sl'])
            fix q' assume "set q' \<subseteq> set (queue (st\<lparr>queue := q\<rparr>))"
              "out = Yielded True (st\<lparr>queue := q, queue := q'\<rparr>)"
            with inq show thesis by (intro less.prems(1) [of q']) auto
          next
            assume "out = Threw TypeError"
            then show thesis by (rule less.prems(2))
          next
            fix current' cell' q'
            assume "current' \<in> set (queue (st\<lparr>queue := q\<rparr>))" "set q' \<subseteq> set (queue (st\<lparr>queue := q\<rparr>))"
              "grid (st\<lparr>queue := q\<rparr>) current' = Some cell'" "\<not> isWall (state cell')" "\<not> isStart (state cell')"
              "cellId cell' \<notin> visited (st\<lparr>queue := q\<rparr>)" "isGoal (state cell')"
              "visitGoal current' (st\<lparr>queue := q, queue := q', visited := insert (cellId cell') (visited (st\<lparr>queue := q\<rparr>))\<rparr>) = Some out"
            with inq show thesis by (intro less.prems(3) [of current' q' cell']) auto
          next
            fix current' cell' q'
            assume "current' \<in> set (queue (st\<lparr>queue := q\<rparr>))" "set q' \<subseteq> set (queue (st\<lparr>queue := q\<rparr>))"
              "grid (st\<lparr>queue := q\<rparr>) current' = Some cell'" "\<not> isWall (state cell')" "\<not> isStart (state cell')"
              "cellId cell' \<notin> visited (st\<lparr>queue := q\<rparr>)" "\<not> isGoal (state cell')"
              "visitOther strategy current' cell' (st\<lparr>queue := q, queue := q', visited := insert (cellId cell') (visited (st\<lparr>queue := q\<rparr>))\<rparr>) = Some out"
            with inq show thesis by (intro less.prems(4) [of current' q' cell']) auto
          qed
        next
          case isgoal
          with sl ne pop' cell
          have "visitGoal current (st\<lparr>queue := q, visited := insert (cellId cell) (visited st)\<rparr>) = Some out"
            by (subst (asm) searchLoop.simps) auto
          with inq cell isgoal show ?thesis by (intro less.prems(3) [of current q cell]) auto
        next
          case isother
          with sl ne pop' cell
          have "visitOther strategy current cell (st\<lparr>queue := q, visited := insert (cellId cell) (visited st)\<rparr>) = Some out"
            by (subst (asm) searchLoop.simps) auto
          with inq cell isother show ?thesis by (intro less.prems(4) [of current q cell]) auto
        qed
      qed
    qed
  qed
qed




lemma visitGoal_frame:
  assumes "visitGoal current st = Some out"
  shows "out = Threw TypeError \<or> (\<exists>path st'. out = Returned path st'
     \<and> walkParents (grid st) (parentMap st) current [] = Some (Inr path)
     \<and> visited st' = visited st \<and> parentMap st' = parentMap st)"
  using assms by (auto simp: visitGoal_def split: option.splits sum.splits)

section \<open>After the generator is done\<close>

text \<open>
  C8, as stated, fails. On the 1 by 3 grid with the start at \<open>(0, 0)\<close> and the goal at
  \<open>(0, 2)\<close>, the second call of \<open>searchWrapper\<close> under BFS reaches the goal: the generator
  is done, \<open>canStep\<close> is false and \<open>(0, 1)\<close> is a path cell. A third call is not a no-op: it
  starts a new generator on that grid, \<open>(0, 1)\<close> becomes a visited cell and \<open>canStep\<close> is
  true again.
\<close>

theorem searchWrapper_after_found_counterexample:
  "(case ticks 2 (exampleApp BFS 1 3 (0, 0) (0, 2)) of
      Some (Inr ap) \<Rightarrow> \<not> canStep ap \<and> searchGeneratorRef ap = None
        \<and> gridSignal ap (0, 1) = Some (pathCell 1)
    | _ \<Rightarrow> False)
   \<and> (case ticks 3 (exampleApp BFS 1 3 (0, 0) (0, 2)) of
      Some (Inr ap) \<Rightarrow> canStep ap \<and> gridSignal ap (0, 1) = Some (visitedCell 1)
    | _ \<Rightarrow> False)"
  by (simp add: example_defs search_eval)

text \<open>
  C8, amended. A call of \<open>searchWrapper\<close> that finds the generator done sets \<open>canStep\<close> to
  false and clears \<open>searchGeneratorRef\<close>: the timer, which runs only while \<open>canStep()\<close>,
  stops calling. The generator is done in the call whose \<open>next()\<close> returns from the goal
  branch (Found), which also publishes the grid with the path marked, and in the call that
  follows \<open>yield true\<close> (Exhausted), which changes nothing else, the grid included. A call
  whose \<open>next()\<close> yields leaves \<open>canStep\<close> true and the generator in place, suspended at
  that yield. \<open>searchWrapper\<close> itself has no guard: called with \<open>searchGeneratorRef\<close>
  cleared, it does what it does on a generator just created from the start, goal and
  strategy signals, whose first \<open>next()\<close> runs the statements before the loop and then
  the loop.
\<close>

theorem searchWrapper_done:
  "(searchGeneratorRef ap = Some AtYieldTrue \<or> searchGeneratorRef ap = Some Completed \<longrightarrow>
      searchWrapper ap = Some (Inr (ap\<lparr>canStep := False, searchGeneratorRef := None\<rparr>))) \<and>
   (searchGeneratorRef ap = Some (AtYieldFalse s gl strat v pm q) \<longrightarrow>
      (searchLoop strat gl
           \<lparr>grid = gridSignal ap, aStar = aStarStrategy ap, visited = v, parentMap = pm, queue = q\<rparr>
         = Some (Returned path st') \<longrightarrow>
       searchWrapper ap = Some (Inr (ap\<lparr>gridSignal := grid st', aStarStrategy := aStar st',
           canStep := False, searchGeneratorRef := None\<rparr>))) \<and>
      (searchLoop strat gl
           \<lparr>grid = gridSignal ap, aStar = aStarStrategy ap, visited = v, parentMap = pm, queue = q\<rparr>
         = Some (Yielded True st') \<longrightarrow>
       searchWrapper ap = Some (Inr (ap\<lparr>gridSignal := grid st', aStarStrategy := aStar st',
           canStep := True, searchGeneratorRef := Some AtYieldTrue\<rparr>))) \<and>
      (searchLoop strat gl
           \<lparr>grid = gridSignal ap, aStar = aStarStrategy ap, visited = v, parentMap = pm, queue = q\<rparr>
         = Some (Yielded False st') \<longrightarrow>
       searchWrapper ap = Some (Inr (ap\<lparr>gridSignal := grid st', aStarStrategy := aStar st',
           canStep := True, searchGeneratorRef := Some (AtYieldFalse s gl strat
             (visited st') (parentMap st') (queue st'))\<rparr>)))) \<and>
   (searchGeneratorRef ap = None \<longrightarrow>
      searchWrapper ap = searchWrapper (ap\<lparr>searchGeneratorRef :=
        Some (NotStarted (startSignal ap) (goalSignal ap) (strategySignal ap))\<rparr>)) \<and>
   (searchGeneratorRef ap = Some (NotStarted s gl strat) \<longrightarrow>
      searchInit (gridSignal ap) (aStarStrategy ap) s gl strat = Inr st0 \<longrightarrow>
      searchWrapper ap = searchWrapper (ap\<lparr>aStarStrategy := aStar st0, searchGeneratorRef :=
        Some (AtYieldFalse s gl strat (visited st0) (parentMap st0) (queue st0))\<rparr>)) \<and>
   (searchWrapper ap = Some (Inr ap') \<longrightarrow> (canStep ap' \<longleftrightarrow> searchGeneratorRef ap' \<noteq> None))"
proof (intro conjI impI)
  assume "searchGeneratorRef ap = Some AtYieldTrue \<or> searchGeneratorRef ap = Some Completed"
  then show "searchWrapper ap = Some (Inr (ap\<lparr>canStep := False, searchGeneratorRef := None\<rparr>))"
    by (auto simp add: searchWrapper_def generatorNext_def)
next
  assume "searchGeneratorRef ap = Some (AtYieldFalse s gl strat v pm q)"
    "searchLoop strat gl
       \<lparr>grid = gridSignal ap, aStar = aStarStrategy ap, visited = v, parentMap = pm, queue = q\<rparr>
     = Some (Returned path st')"
  then show "searchWrapper ap = Some (Inr (ap\<lparr>gridSignal := grid st', aStarStrategy := aStar st',
      canStep := False, searchGeneratorRef := None\<rparr>))"
    by (simp add: searchWrapper_def generatorNext_def fromOutcome_def)
next
  assume "searchGeneratorRef ap = Some (AtYieldFalse s gl strat v pm q)"
    "searchLoop strat gl
       \<lparr>grid = gridSignal ap, aStar = aStarStrategy ap, visited = v, parentMap = pm, queue = q\<rparr>
     = Some (Yielded True st')"
  then show "searchWrapper ap = Some (Inr (ap\<lparr>gridSignal := grid st', aStarStrategy := aStar st',
      canStep := True, searchGeneratorRef := Some AtYieldTrue\<rparr>))"
    by (simp add: searchWrapper_def generatorNext_def fromOutcome_def)
next
  assume "searchGeneratorRef ap = Some (AtYieldFalse s gl strat v pm q)"
    "searchLoop strat gl
       \<lparr>grid = gridSignal ap, aStar = aStarStrategy ap, visited = v, parentMap = pm, queue = q\<rparr>
     = Some (Yielded False st')"
  then show "searchWrapper ap = Some (Inr (ap\<lparr>gridSignal := grid st', aStarStrategy := aStar st',
      canStep := True, searchGeneratorRef := Some (AtYieldFalse s gl strat
        (visited st') (parentMap st') (queue st'))\<rparr>))"
    by (simp add: searchWrapper_def generatorNext_def fromOutcome_def)
next
  assume "searchGeneratorRef ap = None"
  then show "searchWrapper ap = searchWrapper (ap\<lparr>searchGeneratorRef :=
      Some (NotStarted (startSignal ap) (goalSignal ap) (strategySignal ap))\<rparr>)"
    by (simp add: searchWrapper_def split: option.splits sum.splits prod.splits)
next
  assume "searchGeneratorRef ap = Some (NotStarted s gl strat)"
    "searchInit (gridSignal ap) (aStarStrategy ap) s gl strat = Inr st0"
  moreover from this(2) have "grid st0 = gridSignal ap"
    by (auto simp: searchInit_def Let_def split: option.splits sum.splits)
  then have "st0 = \<lparr>grid = gridSignal ap, aStar = aStar st0, visited = visited st0,
      parentMap = parentMap st0, queue = queue st0\<rparr>"
    by (cases st0) simp
  ultimately show "searchWrapper ap = searchWrapper (ap\<lparr>aStarStrategy := aStar st0,
      searchGeneratorRef :=
        Some (AtYieldFalse s gl strat (visited st0) (parentMap st0) (queue st0))\<rparr>)"
    by (simp add: searchWrapper_def generatorNext_def
        split: option.splits sum.splits prod.splits)
next
  assume "searchWrapper ap = Some (Inr ap')"
  then show "canStep ap' \<longleftrightarrow> searchGeneratorRef ap' \<noteq> None"
    by (auto simp: searchWrapper_def Let_def split: option.splits sum.splits prod.splits)
qed

text \<open>
  The witnesses. Found: on the 1 by 3 grid under BFS the first call expands \<open>(0, 1)\<close> and
  leaves the generator at \<open>yield false\<close> (\<open>foundApp\<close>); the second pops the goal and
  returns, with \<open>(0, 1)\<close> marked as path, \<open>canStep\<close> false and the generator cleared.
  Exhausted: with a wall between start and goal the first call skips the wall and yields
  \<open>true\<close>; the second finds the generator done.
\<close>

definition walledApp :: app where
  "walledApp = (exampleApp DFS 1 3 (0, 0) (0, 2))
     \<lparr>gridSignal := (exampleGrid 1 3 (0, 0) (0, 2))((0, 1) \<mapsto> wallCell 1)\<rparr>"

definition foundApp :: app where
  "foundApp = (exampleApp BFS 1 3 (0, 0) (0, 2))
     \<lparr>gridSignal := (exampleGrid 1 3 (0, 0) (0, 2))((0, 1) \<mapsto> visitedCell 1),
      searchGeneratorRef := Some (AtYieldFalse (0, 0) (0, 2) BFS {1, 0}
        [1 \<mapsto> (0, 0), 2 \<mapsto> (0, 1)] [(0, 2)])\<rparr>"

theorem searchWrapper_done_witness:
  "ticks 1 (exampleApp BFS 1 3 (0, 0) (0, 2)) = Some (Inr foundApp)
   \<and> canStep foundApp
   \<and> searchWrapper foundApp = Some (Inr (foundApp
        \<lparr>gridSignal := (exampleGrid 1 3 (0, 0) (0, 2))((0, 1) \<mapsto> pathCell 1),
         canStep := False, searchGeneratorRef := None\<rparr>))
   \<and> searchWrapper walledApp = Some (Inr (walledApp\<lparr>searchGeneratorRef := Some AtYieldTrue\<rparr>))
   \<and> searchWrapper (walledApp\<lparr>searchGeneratorRef := Some AtYieldTrue\<rparr>)
       = Some (Inr (walledApp\<lparr>canStep := False\<rparr>))"
proof -
  have t: "ticks 1 (exampleApp BFS 1 3 (0, 0) (0, 2)) = Some (Inr foundApp)"
    by (simp add: foundApp_def example_defs search_eval)
  have c: "canStep foundApp" by (simp add: foundApp_def exampleApp_def)
  have r: "searchGeneratorRef foundApp = Some (AtYieldFalse (0, 0) (0, 2) BFS {1, 0}
      [1 \<mapsto> (0, 0), 2 \<mapsto> (0, 1)] [(0, 2)])"
    by (simp add: foundApp_def)
  define st' where "st' = \<lparr>grid = (exampleGrid 1 3 (0, 0) (0, 2))((0, 1) \<mapsto> pathCell 1),
      aStar = aStarStrategy foundApp, visited = {2, 1, 0},
      parentMap = [1 \<mapsto> (0, 0), 2 \<mapsto> (0, 1)], queue = []\<rparr>"
  have l: "searchLoop BFS (0, 2)
      \<lparr>grid = gridSignal foundApp, aStar = aStarStrategy foundApp, visited = {1, 0},
        parentMap = [1 \<mapsto> (0, 0), 2 \<mapsto> (0, 1)], queue = [(0, 2)]\<rparr>
    = Some (Returned [(0, 2), (0, 1)] st')"
    by (simp add: st'_def foundApp_def example_defs search_eval)
  from searchWrapper_done [of foundApp "(0, 0)" "(0, 2)" BFS "{1, 0}"
      "[1 \<mapsto> (0, 0), 2 \<mapsto> (0, 1)]" "[(0, 2)]" "[(0, 2), (0, 1)]" st'] r l
  have "searchWrapper foundApp = Some (Inr (foundApp\<lparr>gridSignal := grid st',
      aStarStrategy := aStar st', canStep := False, searchGeneratorRef := None\<rparr>))"
    by blast
  then have f: "searchWrapper foundApp = Some (Inr (foundApp
        \<lparr>gridSignal := (exampleGrid 1 3 (0, 0) (0, 2))((0, 1) \<mapsto> pathCell 1),
         canStep := False, searchGeneratorRef := None\<rparr>))"
    by (simp add: st'_def)
  have 1: "searchWrapper walledApp
      = Some (Inr (walledApp\<lparr>searchGeneratorRef := Some AtYieldTrue\<rparr>))"
    by (simp add: walledApp_def example_defs search_eval)
  have 2: "searchGeneratorRef (walledApp\<lparr>searchGeneratorRef := Some AtYieldTrue\<rparr>)
      = Some AtYieldTrue"
    by simp
  have 3: "searchGeneratorRef walledApp = None"
    by (simp add: walledApp_def exampleApp_def)
  from searchWrapper_done [of "walledApp\<lparr>searchGeneratorRef := Some AtYieldTrue\<rparr>"] 2
  have "searchWrapper (walledApp\<lparr>searchGeneratorRef := Some AtYieldTrue\<rparr>)
      = Some (Inr (walledApp\<lparr>searchGeneratorRef := Some AtYieldTrue, canStep := False,
           searchGeneratorRef := None\<rparr>))"
    by blast
  moreover have "walledApp\<lparr>searchGeneratorRef := Some AtYieldTrue, canStep := False,
      searchGeneratorRef := None\<rparr> = walledApp\<lparr>canStep := False\<rparr>"
    using 3 by (cases walledApp) simp
  ultimately show ?thesis using 1 t c f by simp
qed

section \<open>The goal branch\<close>









definition aStarLineState :: searchState where
  "aStarLineState =
     \<lparr>grid = (exampleGrid 1 4 (0, 0) (0, 3))((0, 1) \<mapsto> pathCell 1),
      aStar = \<lparr>gScore = [(0, 0) \<mapsto> 0, (0, 2) \<mapsto> 1, (0, 3) \<mapsto> 2],
               aParentMap = [((0, 2), (0, 1)), ((0, 3), (0, 2))]\<rparr>,
      visited = {2, 1, 0},
      parentMap = [1 \<mapsto> (0, 0), 2 \<mapsto> (0, 1), 3 \<mapsto> (0, 2)],
      queue = [(0, 3)]\<rparr>"

lemma aStarLineState_reached:
  "(case searchInit (exampleGrid 1 4 (0, 0) (0, 3)) \<lparr>gScore = Map.empty, aParentMap = []\<rparr>
          (0, 0) (0, 3) AStar of
      Inr st0 \<Rightarrow> (case searchLoop AStar (0, 3) st0 of
         Some (Yielded False st1) \<Rightarrow> searchLoop AStar (0, 3) st1 = Some (Yielded False aStarLineState)
       | _ \<Rightarrow> False)
    | _ \<Rightarrow> False)"
  apply (simp add: aStarLineState_def example_defs search_eval insert_commute)
  apply (auto simp: fun_eq_iff defaultCell_def defaultState_def split: option.splits)
  done


section \<open>The engine's parent map\<close>






section \<open>Runs of the generator\<close>

text \<open>
  The states in which a generator of \<open>search\<close>, created on the grid \<open>g0\<close> with the A*
  object \<open>a0\<close>, can be found between two calls of \<open>next()\<close>: the state before the loop is
  entered, and every state at a \<open>yield false\<close>. Nothing else writes the grid or the A*
  object while the run lasts.
\<close>

inductive searchReach :: "TGrid \<Rightarrow> aStarState \<Rightarrow> TPosition \<Rightarrow> TPosition \<Rightarrow> STRATEGIES
    \<Rightarrow> searchState \<Rightarrow> bool"
  for g0 a0 start goal strategy where
    init: "searchInit g0 a0 start goal strategy = Inr st
      \<Longrightarrow> searchReach g0 a0 start goal strategy st"
  | step: "searchReach g0 a0 start goal strategy st
      \<Longrightarrow> searchLoop strategy goal st = Some (Yielded False st')
      \<Longrightarrow> searchReach g0 a0 start goal strategy st'"

lemma searchReach_invariant [consumes 1, case_names init other]:
  assumes "searchReach g0 a0 start goal strategy st"
    and "\<And>st. searchInit g0 a0 start goal strategy = Inr st \<Longrightarrow> P st"
    and "\<And>st current cell q st'. searchReach g0 a0 start goal strategy st \<Longrightarrow> P st
      \<Longrightarrow> current \<in> set (queue st) \<Longrightarrow> set q \<subseteq> set (queue st)
      \<Longrightarrow> grid st current = Some cell \<Longrightarrow> \<not> isWall (state cell) \<Longrightarrow> \<not> isStart (state cell)
      \<Longrightarrow> cellId cell \<notin> visited st \<Longrightarrow> \<not> isGoal (state cell)
      \<Longrightarrow> visitOther strategy current cell
            (st\<lparr>queue := q, visited := insert (cellId cell) (visited st)\<rparr>)
          = Some (Yielded False st')
      \<Longrightarrow> P st'"
  shows "P st"
  using assms(1)
proof (induction rule: searchReach.induct)
  case (init st)
  then show ?case by (rule assms(2))
next
  case (step st st')
  from step(2) show ?case
  proof (cases rule: searchLoop_cases)
    case (goal current cell q)
    from visitGoal_frame [OF goal(8)] show ?thesis by auto
  next
    case (other current cell q)
    with step(1,3) show ?thesis by (intro assms(3) [of st current q cell st']) auto
  qed auto
qed

section \<open>A*: the walk of the live path ends\<close>

text \<open>The parent links of the A* object, as a relation from parent to child key.\<close>

definition parentLinks :: "(TPosition \<times> TPosition) list \<Rightarrow> (TPosition \<times> TPosition) set" where
  "parentLinks pm = {(p, k). map_of pm k = Some p}"

lemma optimalWalk_wf:
  assumes "wf (parentLinks pm)"
  shows "\<exists>path. optimalWalk pm k acc = Some path"
  using assms
proof (induction k arbitrary: acc rule: wf_induct_rule)
  case (less k)
  show ?case
  proof (cases "map_of pm k")
    case None
    then show ?thesis by (subst optimalWalk.simps) simp
  next
    case (Some p)
    then have "(p, k) \<in> parentLinks pm" by (simp add: parentLinks_def)
    from less.IH [OF this, of "acc @ [p]"] Some show ?thesis
      by (subst optimalWalk.simps) simp
  qed
qed

lemma parentLinks_update:
  assumes "wf (parentLinks pm)" and "n \<noteq> c" and "\<forall>k. map_of pm k \<noteq> Some n"
  shows "wf (parentLinks (AList.update n c pm))"
proof -
  have "(n, c) \<notin> (parentLinks pm)\<^sup>*"
  proof
    assume "(n, c) \<in> (parentLinks pm)\<^sup>*"
    then show False
    proof (cases rule: converse_rtranclE)
      case base
      with assms(2) show ?thesis by simp
    next
      case (step z)
      then have "map_of pm z = Some n" by (simp add: parentLinks_def)
      with assms(3) show ?thesis by blast
    qed
  qed
  with assms(1) have "wf (insert (c, n) (parentLinks pm))" by (simp add: wf_insert)
  moreover have "parentLinks (AList.update n c pm) \<subseteq> insert (c, n) (parentLinks pm)"
    by (auto simp: parentLinks_def update_conv' split: if_splits)
  ultimately show ?thesis by (rule wf_subset)
qed

text \<open>
  What a run keeps true of the A* object: every recorded parent is the position of a cell
  whose id is visited, and the parent links are well-founded.
\<close>

definition aStarInv :: "searchState \<Rightarrow> bool" where
  "aStarInv st \<longleftrightarrow>
     (\<forall>k p. map_of (aParentMap (aStar st)) k = Some p
        \<longrightarrow> (\<exists>c. grid st p = Some c \<and> cellId c \<in> visited st))
     \<and> wf (parentLinks (aParentMap (aStar st)))"

lemma expandNeighbours_aStarInv:
  assumes "expandNeighbours AStar cur ns st = Inr st'" and "aStarInv st"
    and "grid st cur = Some cell" and "cellId cell \<in> visited st"
  shows "aStarInv st'"
  using assms
proof (induction ns arbitrary: st)
  case Nil
  then show ?case by simp
next
  case (Cons n ns)
  from Cons.prems(1) obtain nCell where nCell: "grid st n = Some nCell"
    by (auto split: option.splits)
  show ?case
  proof (cases "cellId nCell \<notin> visited st \<and> \<not> isWall (state nCell)")
    case False
    with Cons.prems nCell have "expandNeighbours AStar cur ns st = Inr st'" by auto
    from Cons.IH [OF this Cons.prems(2-4)] show ?thesis .
  next
    case push: True
    obtain ok a' where pn: "processNeighbour AStar (aStar st) cur n = (ok, a')"
      by (cases "processNeighbour AStar (aStar st) cur n")
    show ?thesis
    proof (cases ok)
      case False
      with pn have a': "a' = aStar st"
        by (auto simp: processNeighbour_def Let_def split: if_splits)
      from False Cons.prems(1) nCell push pn
      have "expandNeighbours AStar cur ns (st\<lparr>aStar := a'\<rparr>) = Inr st'" by simp
      moreover have "aStarInv (st\<lparr>aStar := a'\<rparr>)"
        using Cons.prems(2) a' by (simp add: aStarInv_def)
      ultimately show ?thesis
        using Cons.IH [of "st\<lparr>aStar := a'\<rparr>"] Cons.prems(3,4) by simp
    next
      case True
      with pn have a': "aParentMap a' = AList.update n cur (aParentMap (aStar st))"
        by (auto simp: processNeighbour_def Let_def split: if_splits)
      let ?st = "st\<lparr>aStar := a', queue := queue st @ [n],
                  parentMap := (parentMap st)(cellId nCell \<mapsto> cur)\<rparr>"
      from True Cons.prems(1) nCell push pn
      have ex: "expandNeighbours AStar cur ns ?st = Inr st'" by simp
      have notparent: "\<forall>k. map_of (aParentMap (aStar st)) k \<noteq> Some n"
      proof (intro allI notI)
        fix k assume "map_of (aParentMap (aStar st)) k = Some n"
        with Cons.prems(2) [unfolded aStarInv_def] nCell have "cellId nCell \<in> visited st"
          by fastforce
        with push show False by simp
      qed
      have ne: "n \<noteq> cur"
        using push nCell Cons.prems(3,4) by auto
      have "wf (parentLinks (aParentMap a'))"
        unfolding a' using Cons.prems(2) ne notparent
        by (intro parentLinks_update) (simp_all add: aStarInv_def)
      moreover have "\<forall>k p. map_of (aParentMap a') k = Some p
          \<longrightarrow> (\<exists>c. grid st p = Some c \<and> cellId c \<in> visited st)"
        unfolding a' using Cons.prems(2,3,4)
        by (auto simp: aStarInv_def update_conv' split: if_splits)
      ultimately have "aStarInv ?st" by (simp add: aStarInv_def)
      with ex show ?thesis
        using Cons.IH [of ?st] Cons.prems(3,4) by simp
    qed
  qed
qed


text \<open>No write of the search changes the key set of the grid or the id of a cell.\<close>

definition sameIds :: "TGrid \<Rightarrow> TGrid \<Rightarrow> bool" where
  "sameIds g g' \<longleftrightarrow> (\<forall>p. map_option cellId (g' p) = map_option cellId (g p))"

lemma sameIds_refl [simp]: "sameIds g g"
  by (simp add: sameIds_def)

lemma sameIds_trans: "sameIds g g' \<Longrightarrow> sameIds g' g'' \<Longrightarrow> sameIds g g''"
  by (simp add: sameIds_def)

lemma sameIds_upd:
  "g p = Some c \<Longrightarrow> cellId c' = cellId c \<Longrightarrow> sameIds g (g(p \<mapsto> c'))"
  by (simp add: sameIds_def)

lemma sameIds_lookup:
  "sameIds g g' \<Longrightarrow> g p = Some c \<Longrightarrow> \<exists>c'. g' p = Some c' \<and> cellId c' = cellId c"
  unfolding sameIds_def by (metis map_option_eq_Some option.simps(9))

lemma sameIds_clearPath: "sameIds g (clearPath g)"
  by (auto simp: sameIds_def clearPath_def split: option.splits)

lemma sameIds_markOptimalPath: "markOptimalPath ps g = Inr g' \<Longrightarrow> sameIds g g'"
proof (induction ps arbitrary: g)
  case Nil
  then show ?case by simp
next
  case (Cons p ps)
  from Cons.prems obtain c where c: "g p = Some c"
    by (auto simp: Let_def split: option.splits)
  let ?g = "if \<not> isGoal (state c) \<and> \<not> isStart (state c) then g(p \<mapsto> pathCell (cellId c)) else g"
  from Cons.prems c have "markOptimalPath ps ?g = Inr g'" by (simp add: Let_def)
  from Cons.IH [OF this] have "sameIds ?g g'" .
  moreover have "sameIds g ?g"
    using c by (auto intro: sameIds_upd simp: pathCell_def)
  ultimately show ?case by (rule sameIds_trans [rotated])
qed

lemma aStarInv_grid:
  assumes "aStarInv st" and "sameIds (grid st) g'"
  shows "aStarInv (st\<lparr>grid := g'\<rparr>)"
  unfolding aStarInv_def
proof (intro conjI allI impI)
  fix k p assume "map_of (aParentMap (aStar (st\<lparr>grid := g'\<rparr>))) k = Some p"
  with assms(1) obtain c where "grid st p = Some c" "cellId c \<in> visited st"
    unfolding aStarInv_def by fastforce
  with sameIds_lookup [OF assms(2)] show "\<exists>c. grid (st\<lparr>grid := g'\<rparr>) p = Some c
      \<and> cellId c \<in> visited (st\<lparr>grid := g'\<rparr>)"
    by fastforce
next
  from assms(1) show "wf (parentLinks (aParentMap (aStar (st\<lparr>grid := g'\<rparr>))))"
    by (simp add: aStarInv_def)
qed

lemma visitOther_aStarInv:
  assumes "visitOther AStar current cell st = Some (Yielded False st')" and "aStarInv st"
    and "grid st current = Some cell" and "cellId cell \<in> visited st"
  shows "aStarInv st'"
proof -
  from assms(1) obtain optimalPath g1 where
    g1: "markOptimalPath optimalPath (clearPath (grid st)) = Inr g1"
    and ex: "expandNeighbours AStar current (getNeighbours current (grid st)) (st\<lparr>grid := g1\<rparr>)
        = Inr st'"
    by (auto simp: visitOther_def redrawOptimalPath_def Let_def
        split: option.splits sum.splits)
  have s: "sameIds (grid st) g1"
    using sameIds_trans [OF sameIds_clearPath sameIds_markOptimalPath [OF g1]] .
  from sameIds_lookup [OF s assms(3)] obtain cell' where
    "g1 current = Some cell'" "cellId cell' = cellId cell" by blast
  with assms(4) aStarInv_grid [OF assms(2) s] ex show ?thesis
    by (intro expandNeighbours_aStarInv [OF ex, of cell']) simp_all
qed

lemma searchInit_aStarInv:
  "searchInit g0 a0 start goal AStar = Inr st \<Longrightarrow> aStarInv st"
  by (auto simp: searchInit_def Let_def aStarInv_def initialize_def aStarInitialize_def
      parentLinks_def split: option.splits sum.splits)

lemma visited_mono_aStarInv:
  "aStarInv st \<Longrightarrow> aStarInv (st\<lparr>queue := q, visited := insert i (visited st)\<rparr>)"
  unfolding aStarInv_def by fastforce

lemma searchReach_aStarInv:
  assumes "searchReach g0 a0 start goal AStar st"
  shows "aStarInv st"
proof (rule searchReach_invariant [OF assms])
  fix st assume "searchInit g0 a0 start goal AStar = Inr st"
  then show "aStarInv st" by (rule searchInit_aStarInv)
next
  fix st current cell q st'
  assume inv: "aStarInv st" and cell: "grid st current = Some cell"
    and v: "visitOther AStar current cell
        (st\<lparr>queue := q, visited := insert (cellId cell) (visited st)\<rparr>)
      = Some (Yielded False st')"
  show "aStarInv st'"
    by (rule visitOther_aStarInv [OF v visited_mono_aStarInv [OF inv]]) (simp_all add: cell)
qed

text \<open>
  C10, as stated, fails. After \<open>initialize((0, 0))\<close>, relaxing \<open>(0, 2)\<close> from \<open>(0, 1)\<close> and then
  \<open>(0, 1)\<close> from \<open>(0, 2)\<close> records both parents: \<open>(0, 1)\<close> has no score when it is the current
  position, so its g counts as 0, and it has no score when it is the neighbour, so any g is
  recorded for it. The two links form a cycle and the walk of \<open>getOptimalPath\<close> never ends.
\<close>

theorem relax_cycle_counterexample:
  "aParentMap (snd (processNeighbour AStar
       (snd (processNeighbour AStar (aStarInitialize (0, 0)) (0, 1) (0, 2))) (0, 2) (0, 1)))
     = [((0, 2), (0, 1)), ((0, 1), (0, 2))]
   \<and> getOptimalPath (snd (processNeighbour AStar
       (snd (processNeighbour AStar (aStarInitialize (0, 0)) (0, 1) (0, 2))) (0, 2) (0, 1)))
     = None"
proof -
  have pm: "aParentMap (snd (processNeighbour AStar
       (snd (processNeighbour AStar (aStarInitialize (0, 0)) (0, 1) (0, 2))) (0, 2) (0, 1)))
     = [((0, 2), (0, 1)), ((0, 1), (0, 2))]"
    by (simp add: processNeighbour_def aStarInitialize_def gOr0_def generateKey_def Let_def)
  have "optimalWalk [((0, 2), (0, 1)), ((0, 1), (0, 2))] (0, 1) [] = None"
    by (rule optimalWalk_cycle [where K = "{(0, 1), (0, 2)}"]) simp_all
  with pm show ?thesis by (simp add: getOptimalPath_def)
qed

text \<open>
  C10, amended. In every state of a run of the generator under A*, the walk of
  \<open>getOptimalPath\<close> ends. The engine relaxes a neighbour only from the position it is
  expanding, whose id is visited, and only while the neighbour's id is not visited; so a
  neighbour that receives a parent is no recorded parent itself, and the links stay free of
  cycles.
\<close>

theorem getOptimalPath_ends_in_run:
  assumes "searchReach g0 a0 start goal AStar st"
  shows "\<exists>path. getOptimalPath (aStar st) = Some path"
proof -
  from searchReach_aStarInv [OF assms] have "wf (parentLinks (aParentMap (aStar st)))"
    by (simp add: aStarInv_def)
  from optimalWalk_wf [OF this] show ?thesis
    by (simp add: getOptimalPath_def)
qed

theorem getOptimalPath_ends_in_run_witness:
  "\<exists>st. searchReach (exampleGrid 3 3 (1, 1) (0, 0)) \<lparr>gScore = Map.empty, aParentMap = []\<rparr>
           (1, 1) (0, 0) AStar st
     \<and> aParentMap (aStar st) = [((0, 0), (0, 1)), ((0, 2), (0, 1)), ((2, 0), (1, 0))]
     \<and> getOptimalPath (aStar st) = Some [(1, 0)]"
proof -
  let ?R = "searchReach (exampleGrid 3 3 (1, 1) (0, 0)) \<lparr>gScore = Map.empty, aParentMap = []\<rparr>
      (1, 1) (0, 0) AStar"
  define st0 where "st0 = projr (searchInit (exampleGrid 3 3 (1, 1) (0, 0))
      \<lparr>gScore = Map.empty, aParentMap = []\<rparr> (1, 1) (0, 0) AStar)"
  define st1 where "st1 = the (outcomeState (the (searchLoop AStar (0, 0) st0)))"
  define st2 where "st2 = the (outcomeState (the (searchLoop AStar (0, 0) st1)))"
  have e0: "searchInit (exampleGrid 3 3 (1, 1) (0, 0))
      \<lparr>gScore = Map.empty, aParentMap = []\<rparr> (1, 1) (0, 0) AStar = Inr st0"
    unfolding st0_def by (simp add: example_defs search_eval)
  have e1: "searchLoop AStar (0, 0) st0 = Some (Yielded False st1)"
    unfolding st1_def st0_def by (simp add: example_defs search_eval)
  have e2: "searchLoop AStar (0, 0) st1 = Some (Yielded False st2)"
    unfolding st2_def st1_def st0_def by (simp add: example_defs search_eval)
  have pm: "aParentMap (aStar st2) = [((0, 0), (0, 1)), ((0, 2), (0, 1)), ((2, 0), (1, 0))]"
    unfolding st2_def st1_def st0_def by (simp add: example_defs search_eval)
  have r2: "?R st2"
    by (rule searchReach.step [OF searchReach.step [OF searchReach.init [OF e0] e1] e2])
  from getOptimalPath_ends_in_run [OF r2] obtain path where
    path: "getOptimalPath (aStar st2) = Some path" by blast
  then have "path = [(1, 0)]"
    using pm by (simp add: getOptimalPath_def optimalWalk.simps generateKey_def)
  with r2 pm path show ?thesis by blast
qed


section \<open>Wall, start and goal cells are kept\<close>

text \<open>
  A cell tagged Wall, Start or Goal: one of the three flags is set and the path flag is
  not (the factory sets one flag at most).
\<close>

definition reserved :: "ICell \<Rightarrow> bool" where
  "reserved c \<longleftrightarrow>
     (isWall (state c) \<or> isStart (state c) \<or> isGoal (state c)) \<and> \<not> isPath (state c)"

text \<open>
  \<open>keptCell c0 c\<close>: \<open>c\<close> has the id and the wall, start and goal flags of \<open>c0\<close>, and is \<open>c0\<close>
  itself when \<open>c0\<close> is tagged Wall, Start or Goal. \<open>cellsKept g0 g\<close>: the grids have the same
  keys and every cell of \<open>g\<close> is kept from \<open>g0\<close>.
\<close>

definition keptCell :: "ICell \<Rightarrow> ICell \<Rightarrow> bool" where
  "keptCell c0 c \<longleftrightarrow>
     cellId c = cellId c0 \<and> isWall (state c) = isWall (state c0)
     \<and> isStart (state c) = isStart (state c0) \<and> isGoal (state c) = isGoal (state c0)
     \<and> (reserved c0 \<longrightarrow> c = c0)"

definition cellsKept :: "TGrid \<Rightarrow> TGrid \<Rightarrow> bool" where
  "cellsKept g0 g \<longleftrightarrow>
     (\<forall>p. case g0 p of None \<Rightarrow> g p = None | Some c0 \<Rightarrow> (\<exists>c. g p = Some c \<and> keptCell c0 c))"


lemma cellsKeptI:
  "(\<And>p. case g0 p of None \<Rightarrow> g p = None | Some c0 \<Rightarrow> (\<exists>c. g p = Some c \<and> keptCell c0 c))
   \<Longrightarrow> cellsKept g0 g"
  unfolding cellsKept_def by (rule allI)

lemma cellsKept_refl [simp]: "cellsKept g g"
  by (rule cellsKeptI) (simp add: keptCell_def split: option.splits)










text \<open>A position whose cell sends its own id to the position itself: the walk stays there.\<close>

definition selfParent :: "TGrid \<Rightarrow> (nat \<rightharpoonup> TPosition) \<Rightarrow> TPosition \<Rightarrow> bool" where
  "selfParent g pm y \<longleftrightarrow> (\<exists>c. g y = Some c \<and> pm (cellId c) = Some y)"

text \<open>
  A walk that returns never stands on such a position, and every position it adds to the
  path is its first position or a recorded parent, with an entry for its cell's id.
\<close>

lemma walkParents_path:
  assumes "walkParents g pm x acc = Some res"
  shows "\<forall>path. res = Inr path \<longrightarrow>
     \<not> selfParent g pm x
     \<and> (\<forall>y \<in> set path. y \<in> set acc
          \<or> ((y = x \<or> y \<in> ran pm) \<and> \<not> selfParent g pm y
              \<and> (\<exists>c. g y = Some c \<and> pm (cellId c) \<noteq> None)))"
proof (rule walkParents.raw_induct [OF _ assms])
  fix walk g pm x acc res
  assume IH: "\<And>g pm x acc res. walk g pm x acc = Some res \<Longrightarrow>
      \<forall>path. res = Inr path \<longrightarrow>
        \<not> selfParent g pm x
        \<and> (\<forall>y \<in> set path. y \<in> set acc
             \<or> ((y = x \<or> y \<in> ran pm) \<and> \<not> selfParent g pm y
                 \<and> (\<exists>c. g y = Some c \<and> pm (cellId c) \<noteq> None)))"
    and body: "(case g (generateKey (fst x) (snd x)) of
        None \<Rightarrow> Some (Inl TypeError)
      | Some c \<Rightarrow>
          (case pm (cellId c) of
             None \<Rightarrow> Some (Inr acc)
           | Some parent \<Rightarrow> walk g pm parent (acc @ [x]))) = Some res"
  show "\<forall>path. res = Inr path \<longrightarrow>
      \<not> selfParent g pm x
      \<and> (\<forall>y \<in> set path. y \<in> set acc
           \<or> ((y = x \<or> y \<in> ran pm) \<and> \<not> selfParent g pm y
               \<and> (\<exists>c. g y = Some c \<and> pm (cellId c) \<noteq> None)))"
  proof (intro allI impI)
    fix path assume res: "res = Inr path"
    from body res obtain c where c: "g x = Some c"
      by (cases "g x") auto
    show "\<not> selfParent g pm x
      \<and> (\<forall>y \<in> set path. y \<in> set acc
           \<or> ((y = x \<or> y \<in> ran pm) \<and> \<not> selfParent g pm y
               \<and> (\<exists>c. g y = Some c \<and> pm (cellId c) \<noteq> None)))"
    proof (cases "pm (cellId c)")
      case None
      with body c res have "path = acc" by simp
      with None c show ?thesis by (simp add: selfParent_def)
    next
      case (Some parent)
      with body c have "walk g pm parent (acc @ [x]) = Some res" by simp
      from IH [OF this] res have np: "\<not> selfParent g pm parent"
        and el: "\<forall>y \<in> set path. y \<in> set (acc @ [x])
          \<or> ((y = parent \<or> y \<in> ran pm) \<and> \<not> selfParent g pm y
              \<and> (\<exists>c. g y = Some c \<and> pm (cellId c) \<noteq> None))"
        by simp_all
      have nx: "\<not> selfParent g pm x"
      proof
        assume "selfParent g pm x"
        with c Some have "parent = x" by (simp add: selfParent_def)
        with np \<open>selfParent g pm x\<close> show False by simp
      qed
      have pr: "parent \<in> ran pm" using Some by (auto simp: ran_def)
      have "\<forall>y \<in> set path. y \<in> set acc
           \<or> ((y = x \<or> y \<in> ran pm) \<and> \<not> selfParent g pm y
               \<and> (\<exists>c. g y = Some c \<and> pm (cellId c) \<noteq> None))"
      proof
        fix y assume "y \<in> set path"
        with el have "y \<in> set acc \<or> y = x
            \<or> ((y = parent \<or> y \<in> ran pm) \<and> \<not> selfParent g pm y
                \<and> (\<exists>c. g y = Some c \<and> pm (cellId c) \<noteq> None))"
          by auto
        with nx c Some pr show "y \<in> set acc
           \<or> ((y = x \<or> y \<in> ran pm) \<and> \<not> selfParent g pm y
               \<and> (\<exists>c. g y = Some c \<and> pm (cellId c) \<noteq> None))"
          by auto
      qed
      with nx show ?thesis by simp
    qed
  qed
qed























section \<open>BFS on a grid without walls\<close>

text \<open>
  The positions of a grid of \<open>rows\<close> by \<open>columns\<close> cells, and a grid over them that has no
  wall, its start flag at \<open>start\<close> only and its goal flag at \<open>goal\<close> only; \<open>ids\<close> gives the
  id of the cell at each position.
\<close>

definition inGrid :: "int \<Rightarrow> int \<Rightarrow> TPosition \<Rightarrow> bool" where
  "inGrid rows columns p \<longleftrightarrow> 0 \<le> fst p \<and> fst p < rows \<and> 0 \<le> snd p \<and> snd p < columns"

definition openGrid :: "(TPosition \<Rightarrow> nat) \<Rightarrow> int \<Rightarrow> int \<Rightarrow> TPosition \<Rightarrow> TPosition \<Rightarrow> TGrid
    \<Rightarrow> bool" where
  "openGrid ids rows columns start goal g \<longleftrightarrow>
     (\<forall>p. if inGrid rows columns p
          then \<exists>c. g p = Some c \<and> cellId c = ids p \<and> \<not> isWall (state c)
                 \<and> (isStart (state c) \<longleftrightarrow> p = start) \<and> (isGoal (state c) \<longleftrightarrow> p = goal)
          else g p = None)"

lemma openGridD:
  "openGrid ids rows columns start goal g \<Longrightarrow> inGrid rows columns p \<Longrightarrow>
   \<exists>c. g p = Some c \<and> cellId c = ids p \<and> \<not> isWall (state c)
     \<and> (isStart (state c) \<longleftrightarrow> p = start) \<and> (isGoal (state c) \<longleftrightarrow> p = goal)"
  unfolding openGrid_def by (drule spec [of _ p]) simp

lemma openGrid_None:
  "openGrid ids rows columns start goal g \<Longrightarrow> \<not> inGrid rows columns p \<Longrightarrow> g p = None"
  unfolding openGrid_def by (drule spec [of _ p]) simp

lemma openGrid_dom:
  assumes "openGrid ids rows columns start goal g"
  shows "g p \<noteq> None \<longleftrightarrow> inGrid rows columns p"
proof (cases "inGrid rows columns p")
  case True
  with openGridD [OF assms, of p] show ?thesis by auto
next
  case False
  with openGrid_None [OF assms, of p] show ?thesis by simp
qed

lemma openGrid_Some:
  "openGrid ids rows columns start goal g \<Longrightarrow> g p = Some c \<Longrightarrow>
   inGrid rows columns p \<and> cellId c = ids p \<and> \<not> isWall (state c)
     \<and> (isStart (state c) \<longleftrightarrow> p = start) \<and> (isGoal (state c) \<longleftrightarrow> p = goal)"
  using openGridD [of ids rows columns start goal g p]
    openGrid_None [of ids rows columns start goal g p] by (cases "inGrid rows columns p") auto

lemma openGrid_upd:
  assumes "openGrid ids rows columns start goal g" and "inGrid rows columns p"
    and "p \<noteq> start" and "p \<noteq> goal" and "cellId c = ids p"
    and "\<not> isWall (state c)" and "\<not> isStart (state c)" and "\<not> isGoal (state c)"
  shows "openGrid ids rows columns start goal (g(p \<mapsto> c))"
  unfolding openGrid_def
proof
  fix q
  show "if inGrid rows columns q
      then \<exists>c'. (g(p \<mapsto> c)) q = Some c' \<and> cellId c' = ids q \<and> \<not> isWall (state c')
             \<and> (isStart (state c') \<longleftrightarrow> q = start) \<and> (isGoal (state c') \<longleftrightarrow> q = goal)
      else (g(p \<mapsto> c)) q = None"
  proof (cases "q = p")
    case True
    with assms show ?thesis by simp
  next
    case False
    with openGridD [OF assms(1), of q] openGrid_None [OF assms(1), of q] show ?thesis
      by (cases "inGrid rows columns q") auto
  qed
qed

lemma finite_inGrid: "finite {p. inGrid rows columns p}"
proof -
  have "{p. inGrid rows columns p} \<subseteq> {0..<rows} \<times> {0..<columns}"
    by (auto simp: inGrid_def)
  then show ?thesis by (rule finite_subset) simp
qed

text \<open>The neighbours in such a grid, and how the distance to a fixed position changes.\<close>

lemma getNeighbours_openGrid:
  assumes "openGrid ids rows columns start goal g"
  shows "getNeighbours p g = filter (inGrid rows columns)
     [(fst p - 1, snd p), (fst p + 1, snd p), (fst p, snd p - 1), (fst p, snd p + 1)]"
proof -
  have "(\<lambda>(r, c). g (generateKey r c) \<noteq> None) = inGrid rows columns"
    using openGrid_dom [OF assms] by (auto simp: fun_eq_iff generateKey_def)
  then show ?thesis by (cases p) (simp add: getNeighbours_def)
qed

lemma in_getNeighbours:
  assumes "openGrid ids rows columns start goal g"
  shows "n \<in> set (getNeighbours p g) \<longleftrightarrow>
     inGrid rows columns n
     \<and> (n = (fst p - 1, snd p) \<or> n = (fst p + 1, snd p)
        \<or> n = (fst p, snd p - 1) \<or> n = (fst p, snd p + 1))"
  unfolding getNeighbours_openGrid [OF assms] by (auto simp del: filter.simps)

lemma neighbour_inGrid:
  assumes "openGrid ids rows columns start goal g" and "n \<in> set (getNeighbours p g)"
  shows "inGrid rows columns n"
  using assms(2) by (simp add: in_getNeighbours [OF assms(1)])

lemma neighbour_distance:
  assumes "openGrid ids rows columns start goal g" and "n \<in> set (getNeighbours p g)"
  shows "manhattanDistance n s = manhattanDistance p s + 1
     \<or> manhattanDistance n s = manhattanDistance p s - 1"
proof -
  obtain r c where p: "p = (r, c)" by (cases p)
  obtain r' c' where s: "s = (r', c')" by (cases s)
  from assms(2) have "n = (r - 1, c) \<or> n = (r + 1, c) \<or> n = (r, c - 1) \<or> n = (r, c + 1)"
    by (simp add: in_getNeighbours [OF assms(1)] p)
  then show ?thesis
    unfolding p s manhattanDistance_def by (elim disjE) (simp_all, linarith+)
qed

lemma neighbour_sym:
  assumes "openGrid ids rows columns start goal g" and "n \<in> set (getNeighbours p g)"
    and "inGrid rows columns p"
  shows "p \<in> set (getNeighbours n g)"
proof -
  obtain r c where p: "p = (r, c)" by (cases p)
  from assms(2) have "n = (r - 1, c) \<or> n = (r + 1, c) \<or> n = (r, c - 1) \<or> n = (r, c + 1)"
    by (simp add: in_getNeighbours [OF assms(1)] p)
  with assms(3) show ?thesis
    unfolding in_getNeighbours [OF assms(1)] p by auto
qed

lemma manhattanDistance_nonneg: "0 \<le> manhattanDistance p s"
  by (cases p, cases s) (simp add: manhattanDistance_def)

lemma manhattanDistance_zero: "manhattanDistance p s = 0 \<longleftrightarrow> p = s"
  by (cases p, cases s) (auto simp: manhattanDistance_def)

lemma closer_neighbour:
  assumes "openGrid ids rows columns start goal g" and "inGrid rows columns p"
    and "inGrid rows columns s" and "p \<noteq> s"
  shows "\<exists>n \<in> set (getNeighbours p g). manhattanDistance n s = manhattanDistance p s - 1"
proof -
  obtain r c where p: "p = (r, c)" by (cases p)
  obtain r' c' where s: "s = (r', c')" by (cases s)
  from assms(4) p s consider "r' < r" | "r < r'" | "r = r'" "c' < c" | "r = r'" "c < c'"
    by fastforce
  then show ?thesis
  proof cases
    case 1
    with assms(2,3) p s have "inGrid rows columns (r - 1, c)" by (simp add: inGrid_def)
    with 1 p s show ?thesis
      by (intro bexI [of _ "(r - 1, c)"])
         (auto simp: manhattanDistance_def in_getNeighbours [OF assms(1)])
  next
    case 2
    with assms(2,3) p s have "inGrid rows columns (r + 1, c)" by (simp add: inGrid_def)
    with 2 p s show ?thesis
      by (intro bexI [of _ "(r + 1, c)"])
         (auto simp: manhattanDistance_def in_getNeighbours [OF assms(1)])
  next
    case 3
    with assms(2,3) p s have "inGrid rows columns (r, c - 1)" by (simp add: inGrid_def)
    with 3 p s show ?thesis
      by (intro bexI [of _ "(r, c - 1)"])
         (auto simp: manhattanDistance_def in_getNeighbours [OF assms(1)])
  next
    case 4
    with assms(2,3) p s have "inGrid rows columns (r, c + 1)" by (simp add: inGrid_def)
    with 4 p s show ?thesis
      by (intro bexI [of _ "(r, c + 1)"])
         (auto simp: manhattanDistance_def in_getNeighbours [OF assms(1)])
  qed
qed


text \<open>What the parts of one BFS iteration do on such a grid.\<close>

lemma expandNeighbours_BFS:
  assumes "openGrid ids rows columns start goal (grid st)"
    and "\<forall>n \<in> set ns. inGrid rows columns n"
  shows "\<exists>st'. expandNeighbours BFS cur ns st = Inr st' \<and> grid st' = grid st
     \<and> visited st' = visited st
     \<and> queue st' = queue st @ filter (\<lambda>n. ids n \<notin> visited st) ns
     \<and> (\<forall>i. parentMap st' i
           = (if \<exists>n \<in> set ns. ids n = i \<and> i \<notin> visited st then Some cur
              else parentMap st i))"
  using assms
proof (induction ns arbitrary: st)
  case Nil
  then show ?case by simp
next
  case (Cons n ns)
  from Cons.prems have n: "inGrid rows columns n" by simp
  from openGridD [OF Cons.prems(1) n] obtain nCell where
    nCell: "grid st n = Some nCell" "cellId nCell = ids n" "\<not> isWall (state nCell)"
    by blast
  show ?case
  proof (cases "ids n \<in> visited st")
    case True
    with nCell have e: "expandNeighbours BFS cur (n # ns) st = expandNeighbours BFS cur ns st"
      by simp
    from Cons.IH [of st] Cons.prems obtain st' where
      "expandNeighbours BFS cur ns st = Inr st'" "grid st' = grid st"
      "visited st' = visited st"
      "queue st' = queue st @ filter (\<lambda>n. ids n \<notin> visited st) ns"
      "\<forall>i. parentMap st' i
         = (if \<exists>n \<in> set ns. ids n = i \<and> i \<notin> visited st then Some cur else parentMap st i)"
      by auto
    with True e show ?thesis by (intro exI [of _ st']) auto
  next
    case False
    let ?st = "st\<lparr>aStar := aStar st, queue := queue st @ [n],
                parentMap := (parentMap st)(ids n \<mapsto> cur)\<rparr>"
    from False nCell
    have e: "expandNeighbours BFS cur (n # ns) st = expandNeighbours BFS cur ns ?st"
      by (simp add: processNeighbour_def)
    from Cons.IH [of ?st] Cons.prems obtain st' where
      "expandNeighbours BFS cur ns ?st = Inr st'" "grid st' = grid st"
      "visited st' = visited st"
      "queue st' = (queue st @ [n]) @ filter (\<lambda>n. ids n \<notin> visited st) ns"
      "\<forall>i. parentMap st' i
         = (if \<exists>n \<in> set ns. ids n = i \<and> i \<notin> visited st then Some cur
            else ((parentMap st)(ids n \<mapsto> cur)) i)"
      by auto
    with False e show ?thesis by (intro exI [of _ st']) auto
  qed
qed

lemma retagQueue_openGrid:
  assumes "openGrid ids rows columns start goal g" and "\<forall>p \<in> set ps. inGrid rows columns p"
  shows "\<exists>g'. retagQueue ps g = Inr g' \<and> openGrid ids rows columns start goal g'"
  using assms
proof (induction ps arbitrary: g)
  case Nil
  then show ?case by simp
next
  case (Cons p ps)
  from Cons.prems have p: "inGrid rows columns p" by simp
  from openGridD [OF Cons.prems(1) p] obtain c where
    c: "g p = Some c" "cellId c = ids p" "isStart (state c) \<longleftrightarrow> p = start"
    "isGoal (state c) \<longleftrightarrow> p = goal"
    by blast
  let ?g = "if \<not> isGoal (state c) \<and> \<not> isStart (state c) \<and> \<not> isVisited (state c)
      \<and> \<not> isWall (state c) then g(p \<mapsto> queuedCell (cellId c)) else g"
  have "openGrid ids rows columns start goal ?g"
    using Cons.prems(1) p c
    by (auto intro!: openGrid_upd simp: queuedCell_def defaultState_def)
  from Cons.IH [OF this] Cons.prems(2) obtain g' where
    "retagQueue ps ?g = Inr g'" "openGrid ids rows columns start goal g'" by auto
  with c(1) show ?case by (simp add: Let_def)
qed

lemma markPath_Inr:
  "\<forall>p \<in> set ps. g p \<noteq> None \<Longrightarrow> \<exists>g'. markPath ps g = Inr g'"
proof (induction ps arbitrary: g)
  case Nil
  then show ?case by simp
next
  case (Cons p ps)
  then obtain c where c: "g p = Some c" by auto
  let ?g = "if \<not> isGoal (state c) then g(p \<mapsto> pathCell (cellId c)) else g"
  from Cons.prems have "\<forall>q \<in> set ps. ?g q \<noteq> None" by auto
  from Cons.IH [OF this] c show ?case by (simp add: Let_def)
qed

lemma visitOther_BFS:
  assumes "openGrid ids rows columns start goal (grid st)" and "inGrid rows columns current"
    and "current \<noteq> start" and "current \<noteq> goal" and "grid st current = Some cell"
    and "\<forall>p \<in> set (queue st). inGrid rows columns p"
  shows "\<exists>st'. visitOther BFS current cell st = Some (Yielded False st')
     \<and> openGrid ids rows columns start goal (grid st') \<and> visited st' = visited st
     \<and> queue st' = queue st
          @ filter (\<lambda>n. ids n \<notin> visited st) (getNeighbours current (grid st))
     \<and> (\<forall>i. parentMap st' i
           = (if \<exists>n \<in> set (getNeighbours current (grid st)). ids n = i \<and> i \<notin> visited st
              then Some current else parentMap st i))"
proof -
  let ?ns = "getNeighbours current (grid st)"
  let ?g2 = "(grid st)(current \<mapsto> visitedCell (cellId cell))"
  from openGrid_Some [OF assms(1,5)] have cell: "cellId cell = ids current" by simp
  have og2: "openGrid ids rows columns start goal ?g2"
    using assms(1-4) cell
    by (intro openGrid_upd) (simp_all add: visitedCell_def defaultState_def)
  have ns: "\<forall>n \<in> set ?ns. inGrid rows columns n"
    using neighbour_inGrid [OF assms(1)] by blast
  from expandNeighbours_BFS [of ids rows columns start goal "st\<lparr>grid := ?g2\<rparr>" ?ns current]
    og2 ns
  obtain st3 where st3: "expandNeighbours BFS current ?ns (st\<lparr>grid := ?g2\<rparr>) = Inr st3"
    "grid st3 = ?g2" "visited st3 = visited st"
    "queue st3 = queue st @ filter (\<lambda>n. ids n \<notin> visited st) ?ns"
    "\<forall>i. parentMap st3 i
       = (if \<exists>n \<in> set ?ns. ids n = i \<and> i \<notin> visited st then Some current
          else parentMap st i)"
    by auto
  have "\<forall>p \<in> set (queue st3). inGrid rows columns p"
    using st3(4) assms(6) ns by auto
  from retagQueue_openGrid [OF _ this, of ids start goal "grid st3"] og2 st3(2)
  obtain g4 where g4: "retagQueue (queue st3) (grid st3) = Inr g4"
    "openGrid ids rows columns start goal g4" by auto
  have "visitOther BFS current cell st = Some (Yielded False (st3\<lparr>grid := g4\<rparr>))"
    using st3(1) g4(1) by (simp add: visitOther_def Let_def)
  with g4(2) st3 show ?thesis by (intro exI [of _ "st3\<lparr>grid := g4\<rparr>"]) simp
qed

text \<open>
  The BFS loop pops from the front and skips the positions whose cell id is visited, the
  start among them.
\<close>

lemma searchLoop_BFS_skip:
  assumes "openGrid ids rows columns start goal (grid st)"
    and "ids start \<in> visited st"
    and "queue st = skipped @ c # rest"
    and "\<forall>p \<in> set skipped. inGrid rows columns p \<and> ids p \<in> visited st"
    and "inGrid rows columns c" and "ids c \<notin> visited st" and "grid st c = Some cell"
  shows "searchLoop BFS goal' st =
     (if isGoal (state cell)
      then visitGoal c (st\<lparr>queue := rest, visited := insert (ids c) (visited st)\<rparr>)
      else visitOther BFS c cell
             (st\<lparr>queue := rest, visited := insert (ids c) (visited st)\<rparr>))"
  using assms
proof (induction skipped arbitrary: st)
  case Nil
  from openGrid_Some [OF Nil.prems(1,7)] Nil.prems(2,6)
  have "cellId cell = ids c" "\<not> isWall (state cell)" "\<not> isStart (state cell)"
    by auto
  with Nil.prems(3,6,7) show ?case
    by (subst searchLoop.simps) (simp add: getNextNode_def)
next
  case (Cons p skipped)
  from Cons.prems(4) have p: "inGrid rows columns p" "ids p \<in> visited st" by simp_all
  from openGridD [OF Cons.prems(1) p(1)] obtain pc where
    pc: "grid st p = Some pc" "cellId pc = ids p" by blast
  have "searchLoop BFS goal' st = searchLoop BFS goal' (st\<lparr>queue := skipped @ c # rest\<rparr>)"
    using Cons.prems(3) pc p(2) by (subst searchLoop.simps) (simp add: getNextNode_def)
  also have "\<dots> = (if isGoal (state cell)
      then visitGoal c (st\<lparr>queue := skipped @ c # rest, queue := rest,
             visited := insert (ids c) (visited (st\<lparr>queue := skipped @ c # rest\<rparr>))\<rparr>)
      else visitOther BFS c cell (st\<lparr>queue := skipped @ c # rest, queue := rest,
             visited := insert (ids c) (visited (st\<lparr>queue := skipped @ c # rest\<rparr>))\<rparr>))"
    using Cons.prems by (intro Cons.IH) simp_all
  finally show ?case by simp
qed


text \<open>
  The walk of the goal branch when every recorded parent is one step closer to the start
  and every visited cell but the start has a parent: from a position at distance \<open>k\<close> it
  adds \<open>k\<close> positions to the path.
\<close>

lemma walkParents_closer:
  assumes og: "openGrid ids rows columns start goal g"
    and closer: "\<And>p q. inGrid rows columns p \<Longrightarrow> pm (ids p) = Some q \<Longrightarrow>
        inGrid rows columns q \<and> manhattanDistance q start + 1 = manhattanDistance p start
        \<and> ids q \<in> V"
    and known: "\<And>p. inGrid rows columns p \<Longrightarrow> ids p \<in> V \<Longrightarrow> p \<noteq> start
        \<Longrightarrow> pm (ids p) \<noteq> None"
  shows "inGrid rows columns p \<Longrightarrow> ids p \<in> V \<or> pm (ids p) \<noteq> None
     \<Longrightarrow> nat (manhattanDistance p start) = k
     \<Longrightarrow> \<exists>ch. walkParents g pm p acc = Some (Inr (acc @ ch)) \<and> length ch = k"
proof (induction k arbitrary: p acc)
  case 0
  from openGridD [OF og 0(1)] obtain c where c: "g p = Some c" "cellId c = ids p" by blast
  from 0(3) manhattanDistance_nonneg [of p start] have d: "manhattanDistance p start = 0"
    by simp
  have "pm (ids p) = None"
  proof (cases "pm (ids p)")
    case (Some q)
    from closer [OF 0(1) Some] d manhattanDistance_nonneg [of q start] show ?thesis by simp
  qed simp
  with c have "walkParents g pm p acc = Some (Inr acc)"
    by (subst walkParents.simps) simp
  then show ?case by simp
next
  case (Suc k)
  from openGridD [OF og Suc(2)] obtain c where c: "g p = Some c" "cellId c = ids p" by blast
  from Suc(4) have "p \<noteq> start"
    using manhattanDistance_zero [of p start] by auto
  with Suc(2,3) known obtain q where q: "pm (ids p) = Some q" by blast
  from closer [OF Suc(2) q] have q': "inGrid rows columns q"
    "manhattanDistance q start + 1 = manhattanDistance p start" "ids q \<in> V" by simp_all
  from q'(2) Suc(4) have "nat (manhattanDistance q start) = k" by simp
  from Suc.IH [OF q'(1) _ this, of "acc @ [p]"] q'(3) obtain ch where
    ch: "walkParents g pm q (acc @ [p]) = Some (Inr ((acc @ [p]) @ ch))" "length ch = k"
    by blast
  have "walkParents g pm p acc = walkParents g pm q (acc @ [p])"
    using c q by (subst walkParents.simps) simp
  with ch show ?case by (intro exI [of _ "p # ch"]) simp
qed

text \<open>
  What a BFS run on such a grid keeps true between two calls, until the goal is popped.
  \<open>queueLevels\<close>: the queue is ordered by distance to the start and spans at most two
  consecutive distances. \<open>frontierClosed\<close>: every neighbour of a visited cell is visited or
  queued. \<open>parentsCloser\<close>: every recorded parent is a visited cell one step closer to the
  start. \<open>parentsKnown\<close>: every visited cell but the start and every queued cell has a
  parent.
\<close>

definition queueLevels :: "TPosition \<Rightarrow> TPosition list \<Rightarrow> bool" where
  "queueLevels start q \<longleftrightarrow>
     sorted (map (\<lambda>p. manhattanDistance p start) q)
     \<and> (\<forall>a \<in> set q. \<forall>b \<in> set q. manhattanDistance b start \<le> manhattanDistance a start + 1)"

definition frontierClosed :: "(TPosition \<Rightarrow> nat) \<Rightarrow> int \<Rightarrow> int \<Rightarrow> searchState \<Rightarrow> bool" where
  "frontierClosed ids rows columns st \<longleftrightarrow>
     (\<forall>v. inGrid rows columns v \<longrightarrow> ids v \<in> visited st \<longrightarrow>
        (\<forall>n \<in> set (getNeighbours v (grid st)). ids n \<in> visited st \<or> n \<in> set (queue st)))"

definition parentsCloser :: "(TPosition \<Rightarrow> nat) \<Rightarrow> int \<Rightarrow> int \<Rightarrow> TPosition \<Rightarrow> searchState
    \<Rightarrow> bool" where
  "parentsCloser ids rows columns start st \<longleftrightarrow>
     (\<forall>p q. inGrid rows columns p \<longrightarrow> parentMap st (ids p) = Some q \<longrightarrow>
        inGrid rows columns q \<and> manhattanDistance q start + 1 = manhattanDistance p start
        \<and> ids q \<in> visited st)"

definition parentsKnown :: "(TPosition \<Rightarrow> nat) \<Rightarrow> int \<Rightarrow> int \<Rightarrow> TPosition \<Rightarrow> searchState
    \<Rightarrow> bool" where
  "parentsKnown ids rows columns start st \<longleftrightarrow>
     (\<forall>p. inGrid rows columns p \<longrightarrow>
        (ids p \<in> visited st \<and> p \<noteq> start \<or> p \<in> set (queue st)) \<longrightarrow>
        parentMap st (ids p) \<noteq> None)"

definition bfsInv :: "(TPosition \<Rightarrow> nat) \<Rightarrow> int \<Rightarrow> int \<Rightarrow> TPosition \<Rightarrow> TPosition
    \<Rightarrow> searchState \<Rightarrow> bool" where
  "bfsInv ids rows columns start goal st \<longleftrightarrow>
     openGrid ids rows columns start goal (grid st)
     \<and> ids start \<in> visited st \<and> ids goal \<notin> visited st
     \<and> (\<forall>p \<in> set (queue st). inGrid rows columns p)
     \<and> queueLevels start (queue st)
     \<and> frontierClosed ids rows columns st
     \<and> parentsCloser ids rows columns start st
     \<and> parentsKnown ids rows columns start st"

lemma frontierClosedD:
  "frontierClosed ids rows columns st \<Longrightarrow> inGrid rows columns v \<Longrightarrow> ids v \<in> visited st
   \<Longrightarrow> n \<in> set (getNeighbours v (grid st)) \<Longrightarrow> ids n \<in> visited st \<or> n \<in> set (queue st)"
  unfolding frontierClosed_def by blast

lemma parentsCloserD:
  "parentsCloser ids rows columns start st \<Longrightarrow> inGrid rows columns p
   \<Longrightarrow> parentMap st (ids p) = Some q
   \<Longrightarrow> inGrid rows columns q \<and> manhattanDistance q start + 1 = manhattanDistance p start
     \<and> ids q \<in> visited st"
  unfolding parentsCloser_def by blast

lemma parentsKnownD:
  "parentsKnown ids rows columns start st \<Longrightarrow> inGrid rows columns p
   \<Longrightarrow> ids p \<in> visited st \<and> p \<noteq> start \<or> p \<in> set (queue st)
   \<Longrightarrow> parentMap st (ids p) \<noteq> None"
  unfolding parentsKnown_def by blast

text \<open>The positions whose cell id is not visited.\<close>

definition unvisited :: "(TPosition \<Rightarrow> nat) \<Rightarrow> int \<Rightarrow> int \<Rightarrow> searchState \<Rightarrow> TPosition set" where
  "unvisited ids rows columns st = {p. inGrid rows columns p \<and> ids p \<notin> visited st}"

text \<open>
  Some unvisited position is in the queue, and the first unvisited position of the queue
  is as close to the start as any unvisited position.
\<close>

lemma bfs_next:
  assumes inv: "bfsInv ids rows columns start goal st"
    and start: "inGrid rows columns start" and goal: "inGrid rows columns goal"
  shows "\<exists>skipped c rest. queue st = skipped @ c # rest
     \<and> (\<forall>p \<in> set skipped. ids p \<in> visited st) \<and> ids c \<notin> visited st
     \<and> (\<forall>u \<in> unvisited ids rows columns st.
           manhattanDistance c start \<le> manhattanDistance u start)"
proof -
  let ?d = "\<lambda>p. manhattanDistance p start"
  let ?U = "unvisited ids rows columns st"
  from inv have og: "openGrid ids rows columns start goal (grid st)"
    and sv: "ids start \<in> visited st" and gv: "ids goal \<notin> visited st"
    and lv: "queueLevels start (queue st)" and fc: "frontierClosed ids rows columns st"
    by (simp_all add: bfsInv_def)
  from goal gv have "goal \<in> ?U" by (simp add: unvisited_def)
  from ex_has_least_nat [of "\<lambda>p. p \<in> ?U" goal "\<lambda>p. nat (?d p)", OF this]
  obtain p where p: "p \<in> ?U" and least: "\<forall>u. u \<in> ?U \<longrightarrow> nat (?d p) \<le> nat (?d u)"
    by blast
  have least': "?d p \<le> ?d u" if "u \<in> ?U" for u
  proof -
    from least that have "nat (?d p) \<le> nat (?d u)" by blast
    with manhattanDistance_nonneg [of p start] manhattanDistance_nonneg [of u start]
    show ?thesis by linarith
  qed
  from p have pin: "inGrid rows columns p" and pu: "ids p \<notin> visited st"
    by (simp_all add: unvisited_def)
  from pu sv have "p \<noteq> start" by auto
  from closer_neighbour [OF og pin start this] obtain n where
    n: "n \<in> set (getNeighbours p (grid st))" "?d n = ?d p - 1" by blast
  have nin: "inGrid rows columns n" using neighbour_inGrid [OF og n(1)] .
  have "n \<notin> ?U"
  proof
    assume "n \<in> ?U"
    from least' [OF this] n(2) show False by simp
  qed
  with nin have nv: "ids n \<in> visited st" by (simp add: unvisited_def)
  from frontierClosedD [OF fc nin nv neighbour_sym [OF og n(1) pin]] pu
  have pq: "p \<in> set (queue st)" by simp
  with pu have "\<exists>x \<in> set (queue st). ids x \<notin> visited st" by blast
  from split_list_first_prop [OF this] obtain skipped c rest where
    split: "queue st = skipped @ c # rest" and c: "ids c \<notin> visited st"
    and sk: "\<forall>y \<in> set skipped. \<not> ids y \<notin> visited st"
    by blast
  from lv split have sorted: "sorted (map ?d (skipped @ c # rest))"
    by (simp add: queueLevels_def)
  have "?d c \<le> ?d p"
  proof -
    from pq split sk pu have "p = c \<or> p \<in> set rest" by auto
    with sorted show ?thesis by (auto simp: sorted_append)
  qed
  with least' have "\<forall>u \<in> ?U. ?d c \<le> ?d u" by force
  with split c sk show ?thesis by blast
qed


lemma sorted_map_const: "\<forall>x \<in> set xs. f x = (k :: int) \<Longrightarrow> sorted (map f xs)"
  by (induction xs) auto

lemma manhattanDistance_sym: "manhattanDistance p q = manhattanDistance q p"
  by (cases p, cases q) (simp add: manhattanDistance_def)

lemma bfs_init:
  assumes og: "openGrid ids rows columns start goal g"
    and inj: "inj_on ids {p. inGrid rows columns p}"
    and start: "inGrid rows columns start" and goal: "inGrid rows columns goal"
    and ne: "start \<noteq> goal"
  shows "\<exists>st. searchInit g a start goal BFS = Inr st \<and> bfsInv ids rows columns start goal st"
proof -
  let ?d = "\<lambda>p. manhattanDistance p start"
  let ?ns = "getNeighbours start g"
  from openGridD [OF og start] obtain startEl where
    el: "g start = Some startEl" "cellId startEl = ids start" by blast
  have "\<forall>n \<in> set ?ns. g n \<noteq> None" by (simp add: getNeighbours_in_grid)
  from seedParents_Inr [OF this, of start Map.empty] obtain pm where
    pm: "seedParents g start ?ns Map.empty = Inr pm"
    "\<forall>i. pm i = (if \<exists>n \<in> set ?ns. \<exists>c. g n = Some c \<and> cellId c = i then Some start else None)"
    by auto
  let ?st = "\<lparr>grid = g, aStar = initialize BFS a start, visited = {ids start},
      parentMap = pm, queue = ?ns\<rparr>"
  have init: "searchInit g a start goal BFS = Inr ?st"
    using el pm(1) by (simp add: searchInit_def Let_def)
  have nin: "inGrid rows columns n" if "n \<in> set ?ns" for n
    using neighbour_inGrid [OF og that] .
  have nd: "?d n = 1" if "n \<in> set ?ns" for n
    using neighbour_distance [OF og that, of start] manhattanDistance_nonneg [of n start]
      manhattanDistance_zero [of start start] by auto
  have ideq: "p = q" if "ids p = ids q" "inGrid rows columns p" "inGrid rows columns q" for p q
    using inj that by (auto dest: inj_onD)
  have pmn: "pm (ids p) = Some start" if "p \<in> set ?ns" for p
  proof -
    from openGridD [OF og nin [OF that]] obtain c where "g p = Some c" "cellId c = ids p"
      by blast
    with that pm(2) show ?thesis by auto
  qed
  have pmD: "p \<in> set ?ns" if "pm (ids p) = Some q" "inGrid rows columns p" for p q
  proof -
    from that(1) pm(2) obtain n c where n: "n \<in> set ?ns" "g n = Some c" "cellId c = ids p"
      by (auto split: if_splits)
    from openGrid_Some [OF og n(2)] n(3) have "ids n = ids p" by simp
    from ideq [OF this nin [OF n(1)] that(2)] n(1) show ?thesis by simp
  qed
  have "ids goal \<notin> visited ?st"
    using ideq [OF _ goal start] ne by auto
  moreover have "queueLevels start (queue ?st)"
    using nd by (auto simp: queueLevels_def intro: sorted_map_const [where k = 1])
  moreover have "frontierClosed ids rows columns ?st"
    unfolding frontierClosed_def
  proof (intro allI impI ballI)
    fix v n assume "inGrid rows columns v" "ids v \<in> visited ?st"
      "n \<in> set (getNeighbours v (grid ?st))"
    with ideq [OF _ _ start, of v] show "ids n \<in> visited ?st \<or> n \<in> set (queue ?st)"
      by auto
  qed
  moreover have "parentsCloser ids rows columns start ?st"
    unfolding parentsCloser_def
  proof (intro allI impI)
    fix p q assume p: "inGrid rows columns p" "parentMap ?st (ids p) = Some q"
    then have "p \<in> set ?ns" using pmD by simp
    from nd [OF this] pmn [OF this] p(2) start manhattanDistance_zero [of start start]
    show "inGrid rows columns q \<and> ?d q + 1 = ?d p \<and> ids q \<in> visited ?st" by simp
  qed
  moreover have "parentsKnown ids rows columns start ?st"
    unfolding parentsKnown_def
  proof (intro allI impI)
    fix p assume p: "inGrid rows columns p"
      "ids p \<in> visited ?st \<and> p \<noteq> start \<or> p \<in> set (queue ?st)"
    with ideq [OF _ p(1) start] have "p \<in> set ?ns" by auto
    from pmn [OF this] show "parentMap ?st (ids p) \<noteq> None" by simp
  qed
  ultimately have "bfsInv ids rows columns start goal ?st"
    using og nin by (simp add: bfsInv_def)
  with init show ?thesis by blast
qed

text \<open>
  One call of \<open>next()\<close> in such a state: it returns from the goal branch with a path as
  long as the distance from start to goal, or it yields \<open>false\<close> in a state of the same
  kind with one unvisited position less.
\<close>

lemma bfs_step:
  assumes inv: "bfsInv ids rows columns start goal st"
    and inj: "inj_on ids {p. inGrid rows columns p}"
    and start: "inGrid rows columns start" and goal: "inGrid rows columns goal"
  shows "(\<exists>path st'. searchLoop BFS goal st = Some (Returned path st')
           \<and> int (length path) = manhattanDistance start goal)
     \<or> (\<exists>st'. searchLoop BFS goal st = Some (Yielded False st')
           \<and> bfsInv ids rows columns start goal st'
           \<and> unvisited ids rows columns st' \<subset> unvisited ids rows columns st)"
proof -
  let ?d = "\<lambda>p. manhattanDistance p start"
  from inv have og: "openGrid ids rows columns start goal (grid st)"
    and sv: "ids start \<in> visited st" and gv: "ids goal \<notin> visited st"
    and qin: "\<forall>p \<in> set (queue st). inGrid rows columns p"
    and lv: "queueLevels start (queue st)" and fc: "frontierClosed ids rows columns st"
    and pc: "parentsCloser ids rows columns start st"
    and pk: "parentsKnown ids rows columns start st"
    by (simp_all add: bfsInv_def)
  have ideq: "p = q" if "ids p = ids q" "inGrid rows columns p" "inGrid rows columns q" for p q
    using inj that by (auto dest: inj_onD)
  from bfs_next [OF inv start goal] obtain skipped c rest where
    split: "queue st = skipped @ c # rest"
    and sk: "\<forall>p \<in> set skipped. ids p \<in> visited st" and cu: "ids c \<notin> visited st"
    and least: "\<forall>u \<in> unvisited ids rows columns st. ?d c \<le> ?d u"
    by blast
  from split qin have cin: "inGrid rows columns c" by simp
  from openGridD [OF og cin] obtain cell where
    cell: "grid st c = Some cell" "cellId cell = ids c" "isGoal (state cell) \<longleftrightarrow> c = goal"
    by blast
  let ?V = "insert (ids c) (visited st)"
  let ?st = "st\<lparr>queue := rest, visited := ?V\<rparr>"
  have loop: "searchLoop BFS goal st =
      (if isGoal (state cell) then visitGoal c ?st else visitOther BFS c cell ?st)"
    using og sv split sk qin cin cu cell(1)
    by (intro searchLoop_BFS_skip [where skipped = skipped]) auto
  from sv cu have cs: "c \<noteq> start" by auto
  have cq: "c \<in> set (queue st)" using split by simp
  show ?thesis
  proof (cases "c = goal")
    case True
    have "parentMap st (ids c) \<noteq> None"
      using parentsKnownD [OF pk cin] cq by simp
    from walkParents_closer [of ids rows columns start goal "grid st" "parentMap st"
        "visited st" c "nat (?d c)" "[]", OF og _ _ cin] this
      parentsCloserD [OF pc] parentsKnownD [OF pk]
    obtain path where path: "walkParents (grid st) (parentMap st) c [] = Some (Inr path)"
      "length path = nat (?d c)"
      by auto
    from walkParents_path [OF path(1)]
    have "\<forall>y \<in> set path. grid st y \<noteq> None" by auto
    from markPath_Inr [OF this] obtain g' where g': "markPath path (grid st) = Inr g'"
      by blast
    have "searchLoop BFS goal st = Some (Returned path (?st\<lparr>grid := g'\<rparr>))"
      using loop cell(3) True path(1) g' by (simp add: visitGoal_def)
    moreover have "int (length path) = manhattanDistance start goal"
      using path(2) True manhattanDistance_nonneg [of goal start]
      by (simp add: manhattanDistance_sym [of start goal])
    ultimately show ?thesis by blast
  next
    case False
    have og': "openGrid ids rows columns start goal (grid ?st)" using og by simp
    have rin: "\<forall>p \<in> set (queue ?st). inGrid rows columns p" using qin split by simp
    from visitOther_BFS [OF og' cin cs False _ rin, of cell] cell(1)
    obtain st' where st': "visitOther BFS c cell ?st = Some (Yielded False st')"
      "openGrid ids rows columns start goal (grid st')" "visited st' = ?V"
      "queue st' = rest @ filter (\<lambda>n. ids n \<notin> ?V) (getNeighbours c (grid st))"
      "\<forall>i. parentMap st' i
         = (if \<exists>n \<in> set (getNeighbours c (grid st)). ids n = i \<and> i \<notin> ?V then Some c
            else parentMap st i)"
      by auto
    let ?ns = "getNeighbours c (grid st)"
    let ?news = "filter (\<lambda>n. ids n \<notin> ?V) ?ns"
    have nbrs_eq: "getNeighbours v (grid st') = getNeighbours v (grid st)" for v
      by (simp add: getNeighbours_openGrid [OF og] getNeighbours_openGrid [OF st'(2)])
    have pm_eq: "parentMap st' i
        = (if \<exists>n \<in> set ?ns. ids n = i \<and> i \<notin> ?V then Some c else parentMap st i)" for i
      using st'(5) by (rule spec)
    have pm_new: "parentMap st' i = Some c" if "\<exists>n \<in> set ?ns. ids n = i \<and> i \<notin> ?V" for i
      using that by (simp only: pm_eq if_P)
    have pm_old: "parentMap st' i = parentMap st i"
      if "\<not> (\<exists>n \<in> set ?ns. ids n = i \<and> i \<notin> ?V)" for i
      using that by (simp only: pm_eq if_False)
    have news_in: "inGrid rows columns n" if "n \<in> set ?news" for n
      using that neighbour_inGrid [OF og, of n c] by simp
    have news_d: "?d n = ?d c + 1" if "n \<in> set ?news" for n
    proof -
      from that have n: "n \<in> set ?ns" "ids n \<notin> visited st" by simp_all
      with news_in [OF that] have "n \<in> unvisited ids rows columns st"
        by (simp add: unvisited_def)
      with least have "?d c \<le> ?d n" by blast
      with neighbour_distance [OF og n(1), of start] show ?thesis by auto
    qed
    from lv split have sorted: "sorted (map ?d (skipped @ c # rest))"
      and span: "\<forall>a \<in> set (queue st). \<forall>b \<in> set (queue st). ?d b \<le> ?d a + 1"
      by (simp_all add: queueLevels_def)
    have rest_lo: "?d c \<le> ?d r" if "r \<in> set rest" for r
      using sorted that by (auto simp: sorted_append)
    have rest_hi: "?d r \<le> ?d c + 1" if "r \<in> set rest" for r
      using span split that by auto
    have "ids goal \<noteq> ids c"
      using ideq [of goal c] goal cin False by blast
    with sv gv have 1: "ids start \<in> visited st'" "ids goal \<notin> visited st'"
      unfolding st'(3) by simp_all
    have 2: "\<forall>p \<in> set (queue st'). inGrid rows columns p"
    proof
      fix p assume "p \<in> set (queue st')"
      then have "p \<in> set rest \<or> p \<in> set ?news" unfolding st'(4) by simp
      moreover have "\<forall>p \<in> set rest. inGrid rows columns p" using rin by simp
      ultimately show "inGrid rows columns p" using news_in by blast
    qed
    have 3: "queueLevels start (queue st')"
      unfolding queueLevels_def
    proof
      have a: "sorted (map ?d rest)" using sorted by (simp add: sorted_append)
      have b: "sorted (map ?d ?news)"
      proof (rule sorted_map_const [where k = "?d c + 1"])
        show "\<forall>x \<in> set ?news. ?d x = ?d c + 1" using news_d by blast
      qed
      have c: "\<forall>x \<in> set rest. \<forall>y \<in> set ?news. ?d x \<le> ?d y"
      proof (intro ballI)
        fix x y assume "x \<in> set rest" "y \<in> set ?news"
        from rest_hi [OF this(1)] news_d [OF this(2)] show "?d x \<le> ?d y" by simp
      qed
      have "sorted (map ?d rest @ map ?d ?news)"
        unfolding sorted_append using a b c by (simp del: filter.simps set_filter)
      then show "sorted (map ?d (queue st'))"
        unfolding st'(4) by (simp only: map_append)
    next
      show "\<forall>a \<in> set (queue st'). \<forall>b \<in> set (queue st'). ?d b \<le> ?d a + 1"
      proof (intro ballI)
        fix a b assume "a \<in> set (queue st')" "b \<in> set (queue st')"
        then have ab: "a \<in> set rest \<or> a \<in> set ?news" "b \<in> set rest \<or> b \<in> set ?news"
          unfolding st'(4) by simp_all
        from ab(1) have "?d c \<le> ?d a"
          using rest_lo [of a] news_d [of a] by (elim disjE) simp_all
        moreover from ab(2) have "?d b \<le> ?d c + 1"
          using rest_hi [of b] news_d [of b] by (elim disjE) simp_all
        ultimately show "?d b \<le> ?d a + 1" by simp
      qed
    qed
    have 4: "frontierClosed ids rows columns st'"
      unfolding frontierClosed_def
    proof (intro allI impI ballI)
      fix v n assume v: "inGrid rows columns v" "ids v \<in> visited st'"
        and n: "n \<in> set (getNeighbours v (grid st'))"
      from n have n': "n \<in> set (getNeighbours v (grid st))" by (simp add: nbrs_eq)
      show "ids n \<in> visited st' \<or> n \<in> set (queue st')"
      proof (cases "ids v \<in> visited st")
        case True
        from frontierClosedD [OF fc v(1) True n'] have "ids n \<in> visited st \<or> n \<in> set (queue st)" .
        with split sk show ?thesis unfolding st'(3,4) by auto
      next
        case False
        with v(2) st'(3) have "ids v = ids c" by simp
        from ideq [OF this v(1) cin] n' show ?thesis unfolding st'(3,4) by auto
      qed
    qed
    have 5: "parentsCloser ids rows columns start st'"
      unfolding parentsCloser_def
    proof (intro allI impI)
      fix p q assume p: "inGrid rows columns p" "parentMap st' (ids p) = Some q"
      show "inGrid rows columns q \<and> ?d q + 1 = ?d p \<and> ids q \<in> visited st'"
      proof (cases "\<exists>n \<in> set ?ns. ids n = ids p \<and> ids p \<notin> ?V")
        case True
        then obtain n where n: "n \<in> set ?ns" "ids n = ids p" "ids p \<notin> ?V" by blast
        from ideq [OF n(2) neighbour_inGrid [OF og n(1)] p(1)] n have "p \<in> set ?news" by simp
        from news_d [OF this] have "?d c + 1 = ?d p" by simp
        moreover from pm_new [OF True] p(2) have "q = c" by simp
        ultimately show ?thesis using cin unfolding st'(3) by simp
      next
        case False
        from pm_old [OF False] p(2) have "parentMap st (ids p) = Some q" by simp
        from parentsCloserD [OF pc p(1) this] show ?thesis unfolding st'(3) by simp
      qed
    qed
    have 6: "parentsKnown ids rows columns start st'"
      unfolding parentsKnown_def
    proof (intro allI impI)
      fix p assume p: "inGrid rows columns p"
        "ids p \<in> visited st' \<and> p \<noteq> start \<or> p \<in> set (queue st')"
      show "parentMap st' (ids p) \<noteq> None"
      proof (cases "\<exists>n \<in> set ?ns. ids n = ids p \<and> ids p \<notin> ?V")
        case True
        from pm_new [OF True] show ?thesis by simp
      next
        case False
        from p(2) have "ids p \<in> visited st \<and> p \<noteq> start \<or> ids p = ids c
            \<or> p \<in> set rest \<or> p \<in> set ?news"
          unfolding st'(3,4) by auto
        moreover have "p \<notin> set ?news"
        proof
          assume "p \<in> set ?news"
          then have "p \<in> set ?ns \<and> ids p \<notin> ?V" by simp
          with False show False by blast
        qed
        moreover have "p \<in> set (queue st)" if "ids p = ids c"
          using ideq [OF that p(1) cin] cq by simp
        moreover have "p \<in> set (queue st)" if "p \<in> set rest"
          using that split by simp
        ultimately have "ids p \<in> visited st \<and> p \<noteq> start \<or> p \<in> set (queue st)"
          by blast
        from parentsKnownD [OF pk p(1) this] pm_old [OF False] show ?thesis by simp
      qed
    qed
    have 7: "unvisited ids rows columns st' \<subset> unvisited ids rows columns st"
      using cin cu st'(3) by (auto simp: unvisited_def)
    have "bfsInv ids rows columns start goal st'"
      using st'(2) 1 2 3 4 5 6 by (simp add: bfsInv_def)
    moreover have "searchLoop BFS goal st = Some (Yielded False st')"
      using loop cell(3) False st'(1) by simp
    ultimately show ?thesis using 7 by blast
  qed
qed


lemma finite_unvisited: "finite (unvisited ids rows columns st)"
  by (rule finite_subset [OF _ finite_inGrid [of rows columns]]) (auto simp: unvisited_def)

lemma bfs_run:
  assumes inj: "inj_on ids {p. inGrid rows columns p}"
    and start: "inGrid rows columns start" and goal: "inGrid rows columns goal"
  shows "bfsInv ids rows columns start goal st \<Longrightarrow>
     \<exists>n path st'. searchRun n BFS goal st = Some (Returned path st')
       \<and> int (length path) = manhattanDistance start goal"
proof (induction "card (unvisited ids rows columns st)" arbitrary: st rule: less_induct)
  case less
  from bfs_step [OF less.prems inj start goal]
  consider (found) path st' where "searchLoop BFS goal st = Some (Returned path st')"
      "int (length path) = manhattanDistance start goal"
    | (continue) st' where "searchLoop BFS goal st = Some (Yielded False st')"
      "bfsInv ids rows columns start goal st'"
      "unvisited ids rows columns st' \<subset> unvisited ids rows columns st"
    by blast
  then show ?case
  proof cases
    case found
    then have "searchRun (Suc 0) BFS goal st = Some (Returned path st')" by simp
    with found(2) show ?thesis by blast
  next
    case continue
    from psubset_card_mono [OF finite_unvisited continue(3)]
    have "card (unvisited ids rows columns st') < card (unvisited ids rows columns st)" .
    from less.hyps [OF this continue(2)] obtain n path st'' where
      r: "searchRun n BFS goal st' = Some (Returned path st'')"
      "int (length path) = manhattanDistance start goal"
      by blast
    from continue(1) r(1) have "searchRun (Suc n) BFS goal st = Some (Returned path st'')"
      by simp
    with r(2) show ?thesis by blast
  qed
qed

text \<open>
  C1, as stated, fails. The ids of the cells are independent random draws and nothing
  keeps two cells from drawing the same one. On the 2 by 4 grid without walls below, the
  goal cell at \<open>(0, 3)\<close> and the cell at \<open>(1, 0)\<close> have the same id. The first call
  expands \<open>(1, 0)\<close> and puts that id into the visited set; from then on the goal counts
  as visited and is never pushed. The seventh call finds the queue empty and yields
  \<open>true\<close> (Exhausted); no path is reconstructed.
\<close>

theorem bfs_shared_id_counterexample:
  "openGrid exampleIds 2 4 (0, 0) (0, 3) (exampleGrid 2 4 (0, 0) (0, 3))
   \<and> exampleIds (0, 3) = exampleIds (1, 0)
   \<and> manhattanDistance (0, 0) (0, 3) = 3
   \<and> (case searchInit (exampleGrid 2 4 (0, 0) (0, 3)) \<lparr>gScore = Map.empty, aParentMap = []\<rparr>
             (0, 0) (0, 3) BFS of
        Inl e \<Rightarrow> False
      | Inr st0 \<Rightarrow>
          (case searchRun 7 BFS (0, 3) st0 of
             Some (Yielded True st') \<Rightarrow> grid st' (0, 3) = Some (goalCell 3)
           | _ \<Rightarrow> False))"
proof -
  have og: "openGrid exampleIds 2 4 (0, 0) (0, 3) (exampleGrid 2 4 (0, 0) (0, 3))"
    unfolding openGrid_def
  proof
    fix p :: TPosition
    obtain r c where p: "p = (r, c)" by (cases p)
    show "if inGrid 2 4 p
      then \<exists>c. exampleGrid 2 4 (0, 0) (0, 3) p = Some c \<and> cellId c = exampleIds p
             \<and> \<not> isWall (state c) \<and> (isStart (state c) \<longleftrightarrow> p = (0, 0))
             \<and> (isGoal (state c) \<longleftrightarrow> p = (0, 3))
      else exampleGrid 2 4 (0, 0) (0, 3) p = None"
      unfolding p by (auto simp: inGrid_def example_defs)
  qed
  have run: "(case searchInit (exampleGrid 2 4 (0, 0) (0, 3)) \<lparr>gScore = Map.empty, aParentMap = []\<rparr>
             (0, 0) (0, 3) BFS of
        Inl e \<Rightarrow> False
      | Inr st0 \<Rightarrow>
          (case searchRun 7 BFS (0, 3) st0 of
             Some (Yielded True st') \<Rightarrow> grid st' (0, 3) = Some (goalCell 3)
           | _ \<Rightarrow> False))"
    by (simp add: example_defs search_eval retagQueue.simps)
  show ?thesis using og run by (simp add: exampleIds_def manhattanDistance_def)
qed

text \<open>
  C1, amended. Take a grid of \<open>rows\<close> by \<open>columns\<close> cells with pairwise different ids, no
  wall, the start flag at \<open>start\<close> only and the goal flag at \<open>goal\<close> only, \<open>start\<close> and
  \<open>goal\<close> different positions of the grid. The search under BFS, called until it no longer
  yields \<open>false\<close>, returns from the goal branch (Found), and the path it reconstructed has
  as many positions as the Manhattan distance between \<open>start\<close> and \<open>goal\<close>.
\<close>

theorem bfs_path_length_is_manhattan:
  assumes "openGrid ids rows columns start goal g"
    and "inj_on ids {p. inGrid rows columns p}"
    and "inGrid rows columns start" and "inGrid rows columns goal" and "start \<noteq> goal"
  shows "\<exists>st0 n path st'. searchInit g a start goal BFS = Inr st0
     \<and> searchRun n BFS goal st0 = Some (Returned path st')
     \<and> int (length path) = manhattanDistance start goal"
proof -
  from bfs_init [OF assms, of a] obtain st0 where
    st0: "searchInit g a start goal BFS = Inr st0" "bfsInv ids rows columns start goal st0"
    by blast
  from bfs_run [OF assms(2-4) st0(2)] st0(1) show ?thesis by blast
qed

theorem bfs_path_length_is_manhattan_witness:
  "\<exists>st0 n path st'.
     searchInit (exampleGrid 2 3 (0, 0) (1, 2)) \<lparr>gScore = Map.empty, aParentMap = []\<rparr>
       (0, 0) (1, 2) BFS = Inr st0
     \<and> searchRun n BFS (1, 2) st0 = Some (Returned path st')
     \<and> int (length path) = 3"
proof -
  have og: "openGrid exampleIds 2 3 (0, 0) (1, 2) (exampleGrid 2 3 (0, 0) (1, 2))"
    unfolding openGrid_def
  proof
    fix p :: TPosition
    obtain r c where p: "p = (r, c)" by (cases p)
    show "if inGrid 2 3 p
      then \<exists>c. exampleGrid 2 3 (0, 0) (1, 2) p = Some c \<and> cellId c = exampleIds p
             \<and> \<not> isWall (state c) \<and> (isStart (state c) \<longleftrightarrow> p = (0, 0))
             \<and> (isGoal (state c) \<longleftrightarrow> p = (1, 2))
      else exampleGrid 2 3 (0, 0) (1, 2) p = None"
      unfolding p by (auto simp: inGrid_def example_defs)
  qed
  have inj: "inj_on exampleIds {p. inGrid 2 3 p}"
  proof (rule inj_onI)
    fix p q :: TPosition
    assume "p \<in> {p. inGrid 2 3 p}" "q \<in> {p. inGrid 2 3 p}" "exampleIds p = exampleIds q"
    then have "0 \<le> fst p" "fst p < 2" "0 \<le> snd p" "snd p < 3"
      "0 \<le> fst q" "fst q < 2" "0 \<le> snd q" "snd q < 3"
      "nat (3 * fst p + snd p) = nat (3 * fst q + snd q)"
      by (simp_all add: inGrid_def exampleIds_def)
    then have "3 * fst p + snd p = 3 * fst q + snd q"
      "0 \<le> fst p" "fst p < 2" "0 \<le> snd p" "snd p < 3"
      "0 \<le> fst q" "fst q < 2" "0 \<le> snd q" "snd q < 3"
      by (simp_all add: eq_nat_nat_iff)
    then have "fst p = fst q \<and> snd p = snd q" by presburger
    then show "p = q" by (simp add: prod_eq_iff)
  qed
  have io: "inGrid 2 3 (0, 0)" "inGrid 2 3 (1, 2)" "(0, 0) \<noteq> (1, 2 :: int)"
    by (simp_all add: inGrid_def)
  have d: "manhattanDistance (0, 0) (1, 2) = 3"
    by (simp add: manhattanDistance_def)
  from bfs_path_length_is_manhattan [OF og inj io, of "\<lparr>gScore = Map.empty, aParentMap = []\<rparr>"]
  show ?thesis unfolding d .
qed


end
